theory Spec2Isabelle
  imports Main
begin

section \<open>Memory model\<close>

text \<open>
  Both containers are node chains linked by raw pointers, so the embedding keeps an
  explicit store. An address is a slot number of a growable slot array; a pointer is
  an optional address, \<open>None\<close> being \<open>nullptr\<close>. A slot holds \<open>Some node\<close> while
  the node is live and \<open>None\<close> once it has been deleted. \<open>new\<close> appends a slot (so the
  address it returns has never been handed out before) and \<open>delete\<close> empties one.

  What C++ leaves undefined is a value of the model: reading or writing through
  \<open>nullptr\<close> is \<open>NullDeref\<close>, through a pointer to a deleted or never allocated slot
  \<open>Dangling\<close>. The one exception the library throws, \<open>std::out_of_range\<close>, is
  \<open>OutOfRange\<close> with its message.
\<close>

type_synonym addr = nat
type_synonym ptr = "addr option"

datatype error = NullDeref | Dangling | OutOfRange string

type_synonym 'n heap = "'n option list"

definition ebind :: "error + 'a \<Rightarrow> ('a \<Rightarrow> error + 'b) \<Rightarrow> error + 'b" where
  "ebind r f = (case r of Inl e \<Rightarrow> Inl e | Inr x \<Rightarrow> f x)"

definition heap_read :: "'n heap \<Rightarrow> ptr \<Rightarrow> error + 'n" where
  "heap_read h p =
     (case p of
        None \<Rightarrow> Inl NullDeref
      | Some a \<Rightarrow>
          if a < length h
          then (case h ! a of None \<Rightarrow> Inl Dangling | Some n \<Rightarrow> Inr n)
          else Inl Dangling)"

definition heap_write :: "'n heap \<Rightarrow> ptr \<Rightarrow> ('n \<Rightarrow> 'n) \<Rightarrow> error + 'n heap" where
  "heap_write h p f =
     (case p of
        None \<Rightarrow> Inl NullDeref
      | Some a \<Rightarrow>
          if a < length h
          then (case h ! a of None \<Rightarrow> Inl Dangling | Some n \<Rightarrow> Inr (h[a := Some (f n)]))
          else Inl Dangling)"

definition heap_new :: "'n heap \<Rightarrow> 'n \<Rightarrow> addr \<times> 'n heap" where
  "heap_new h n = (length h, h @ [Some n])"

text \<open>\<open>delete nullptr\<close> does nothing; deleting a node twice is undefined.\<close>

definition heap_delete :: "'n heap \<Rightarrow> ptr \<Rightarrow> error + 'n heap" where
  "heap_delete h p =
     (case p of
        None \<Rightarrow> Inr h
      | Some a \<Rightarrow>
          if a < length h
          then (case h ! a of None \<Rightarrow> Inl Dangling | Some n \<Rightarrow> Inr (h[a := None]))
          else Inl Dangling)"

subsection \<open>\<open>size_t\<close> and \<open>std::to_string\<close>\<close>

text \<open>
  Sizes and indices are \<open>size_t\<close>, taken as 64 bits wide. They are natural numbers in
  the model, and the one operation of the library that can wrap around on values the
  caller may pass, the subtraction in \<open>size_ - 1 - index\<close>, is written out modulo
  \<open>SIZE_MAX + 1\<close>. The counter \<open>size_\<close> itself counts live nodes, each of which occupies
  storage of its own, so \<open>++size_\<close> is a plain successor.
\<close>

definition SIZE_MAX :: nat where
  "SIZE_MAX = 18446744073709551615"

definition size_t_sub :: "nat \<Rightarrow> nat \<Rightarrow> nat" where
  "size_t_sub a b = (if b \<le> a then a - b else a + (SIZE_MAX + 1) - b)"

function to_string :: "nat \<Rightarrow> string" where
  "to_string n =
     (if n < 10 then [''0123456789'' ! n]
      else to_string (n div 10) @ [''0123456789'' ! (n mod 10)])"
  by pat_completeness auto
termination
  by (relation "measure id") auto

section \<open>The data model\<close>

text \<open>
  \<open>DoublyLinkedList::Node\<close> and \<open>LinkedList::Node\<close>. Both classes have the same three
  data members \<open>head_\<close>, \<open>tail_\<close> and \<open>size_\<close> (here \<open>head_m\<close>, \<open>tail_m\<close>, \<open>size_m\<close>), and each
  of their iterator classes has the single member \<open>node\<close>. The names \<open>List\<close> and \<open>DList\<close> are the aliases of
  \<open>manual.h\<close> for \<open>LinkedList\<close> and \<open>DoublyLinkedList\<close>.
\<close>

record 'a DNode =
  dvalue :: 'a
  dnext :: ptr
  dprevious :: ptr

record 'a SNode =
  svalue :: 'a
  snext :: ptr

record Container =
  head_m :: ptr
  tail_m :: ptr
  size_m :: nat

record Cursor =
  node :: ptr

datatype cursor_class = Iterator | ConstIterator | ReverseIterator | ConstReverseIterator

definition empty_container :: Container where
  "empty_container = \<lparr>head_m = None, tail_m = None, size_m = 0\<rparr>"

section \<open>The doubly linked list\<close>

subsection \<open>Capacity and element access\<close>

definition DList_size :: "Container \<Rightarrow> nat" where
  "DList_size l = size_m l"

definition DList_empty :: "Container \<Rightarrow> bool" where
  "DList_empty l = (head_m l = None)"

definition DList_front :: "'a DNode heap \<Rightarrow> Container \<Rightarrow> error + 'a" where
  "DList_front h l = ebind (heap_read h (head_m l)) (\<lambda>n. Inr (dvalue n))"

definition DList_back :: "'a DNode heap \<Rightarrow> Container \<Rightarrow> error + 'a" where
  "DList_back h l = ebind (heap_read h (tail_m l)) (\<lambda>n. Inr (dvalue n))"

text \<open>
  The two loops of \<open>operator[]\<close>, which \<open>insert\<close> and \<open>remove\<close> repeat verbatim:
  \<open>for(i = 0; i < index; ++i) current = current->next\<close> and
  \<open>for(i = size_-1; i > index; --i) current = current->previous\<close>.
\<close>

function DList_walk_next :: "'a DNode heap \<Rightarrow> nat \<Rightarrow> nat \<Rightarrow> ptr \<Rightarrow> error + ptr" where
  "DList_walk_next h i index current =
     (if i < index
      then (case heap_read h current of
              Inl e \<Rightarrow> Inl e
            | Inr n \<Rightarrow> DList_walk_next h (Suc i) index (dnext n))
      else Inr current)"
  by pat_completeness auto
termination
  by (relation "measure (\<lambda>(h, i, index, current). index - i)") auto

function DList_walk_previous :: "'a DNode heap \<Rightarrow> nat \<Rightarrow> nat \<Rightarrow> ptr \<Rightarrow> error + ptr" where
  "DList_walk_previous h i index current =
     (if index < i
      then (case heap_read h current of
              Inl e \<Rightarrow> Inl e
            | Inr n \<Rightarrow> DList_walk_previous h (i - 1) index (dprevious n))
      else Inr current)"
  by pat_completeness auto
termination
  by (relation "measure (\<lambda>(h, i, index, current). i - index)") auto

text \<open>The test \<open>(size_-1 - index) < index\<close> (closer to the end).\<close>

definition closer_to_end :: "nat \<Rightarrow> nat \<Rightarrow> bool" where
  "closer_to_end sz index \<longleftrightarrow> size_t_sub (size_t_sub sz 1) index < index"

text \<open>
  The traversal block shared by \<open>operator[]\<close>, \<open>insert\<close> and \<open>remove\<close>: it leaves in
  \<open>current\<close> the node at \<open>index\<close>, reached from the closer end.
\<close>

definition DList_node_at :: "'a DNode heap \<Rightarrow> Container \<Rightarrow> nat \<Rightarrow> error + ptr" where
  "DList_node_at h l index =
     (if closer_to_end (size_m l) index
      then DList_walk_previous h (size_t_sub (size_m l) 1) index (tail_m l)
      else DList_walk_next h 0 index (head_m l))"

definition DList_subscript :: "'a DNode heap \<Rightarrow> Container \<Rightarrow> nat \<Rightarrow> error + 'a" where
  "DList_subscript h l index =
     ebind (DList_node_at h l index) (\<lambda>current.
     ebind (heap_read h current) (\<lambda>n. Inr (dvalue n)))"

definition DList_at_message :: "nat \<Rightarrow> nat \<Rightarrow> string" where
  "DList_at_message index sz =
     ''[Out of range error] - manual::DoublyLinkedList::at() - (index: '' @ to_string index
       @ '', size: '' @ to_string sz @ '').''"

definition DList_at :: "'a DNode heap \<Rightarrow> Container \<Rightarrow> nat \<Rightarrow> error + 'a" where
  "DList_at h l index =
     (if size_m l \<le> index then Inl (OutOfRange (DList_at_message index (size_m l)))
      else DList_subscript h l index)"

subsection \<open>Modifiers\<close>

function DList_delete_all :: "'a DNode heap \<Rightarrow> nat \<Rightarrow> nat \<Rightarrow> ptr \<Rightarrow> error + 'a DNode heap" where
  "DList_delete_all h i sz current =
     (if i < sz
      then (case heap_read h current of
              Inl e \<Rightarrow> Inl e
            | Inr n \<Rightarrow>
                (case heap_delete h current of
                   Inl e \<Rightarrow> Inl e
                 | Inr h' \<Rightarrow> DList_delete_all h' (Suc i) sz (dnext n)))
      else Inr h)"
  by pat_completeness auto
termination
  by (relation "measure (\<lambda>(h, i, sz, current). sz - i)") auto

definition DList_clear :: "'a DNode heap \<Rightarrow> Container \<Rightarrow> error + ('a DNode heap \<times> Container)" where
  "DList_clear h l =
     (if size_m l \<noteq> 0
      then ebind (DList_delete_all h 0 (size_m l) (head_m l)) (\<lambda>h'.
             Inr (h', l\<lparr>head_m := None, tail_m := None, size_m := 0\<rparr>))
      else Inr (h, l))"

definition DList_push_back ::
  "'a DNode heap \<Rightarrow> Container \<Rightarrow> 'a \<Rightarrow> error + ('a DNode heap \<times> Container)" where
  "DList_push_back h l val =
     (let (tmp, h1) = heap_new h \<lparr>dvalue = val, dnext = None, dprevious = tail_m l\<rparr> in
      if size_m l \<noteq> 0
      then ebind (heap_write h1 (tail_m l) (\<lambda>n. n\<lparr>dnext := Some tmp\<rparr>)) (\<lambda>h2.
             Inr (h2, l\<lparr>tail_m := Some tmp, size_m := size_m l + 1\<rparr>))
      else Inr (h1, l\<lparr>head_m := Some tmp, tail_m := Some tmp, size_m := size_m l + 1\<rparr>))"

definition DList_push_front ::
  "'a DNode heap \<Rightarrow> Container \<Rightarrow> 'a \<Rightarrow> error + ('a DNode heap \<times> Container)" where
  "DList_push_front h l val =
     (let (tmp, h1) = heap_new h \<lparr>dvalue = val, dnext = head_m l, dprevious = None\<rparr> in
      if size_m l \<noteq> 0
      then ebind (heap_write h1 (head_m l) (\<lambda>n. n\<lparr>dprevious := Some tmp\<rparr>)) (\<lambda>h2.
             Inr (h2, l\<lparr>head_m := Some tmp, size_m := size_m l + 1\<rparr>))
      else Inr (h1, l\<lparr>tail_m := Some tmp, head_m := Some tmp, size_m := size_m l + 1\<rparr>))"

definition DList_pop_back :: "'a DNode heap \<Rightarrow> Container \<Rightarrow> error + ('a DNode heap \<times> Container)" where
  "DList_pop_back h l =
     (if size_m l \<noteq> 0
      then
        if size_m l = 1
        then ebind (heap_delete h (tail_m l)) (\<lambda>h1.
               Inr (h1, l\<lparr>tail_m := None, head_m := None, size_m := size_m l - 1\<rparr>))
        else ebind (heap_read h (tail_m l)) (\<lambda>t.
             let tmp = dprevious t in
             ebind (heap_write h tmp (\<lambda>n. n\<lparr>dnext := None\<rparr>)) (\<lambda>h1.
             ebind (heap_delete h1 (tail_m l)) (\<lambda>h2.
               Inr (h2, l\<lparr>tail_m := tmp, size_m := size_m l - 1\<rparr>))))
      else Inr (h, l))"

definition DList_pop_front :: "'a DNode heap \<Rightarrow> Container \<Rightarrow> error + ('a DNode heap \<times> Container)" where
  "DList_pop_front h l =
     (if size_m l \<noteq> 0
      then
        if size_m l = 1
        then ebind (heap_delete h (head_m l)) (\<lambda>h1.
               Inr (h1, l\<lparr>head_m := None, tail_m := None, size_m := size_m l - 1\<rparr>))
        else ebind (heap_read h (head_m l)) (\<lambda>t.
             let tmp = dnext t in
             ebind (heap_write h tmp (\<lambda>n. n\<lparr>dprevious := None\<rparr>)) (\<lambda>h1.
             ebind (heap_delete h1 (head_m l)) (\<lambda>h2.
               Inr (h2, l\<lparr>head_m := tmp, size_m := size_m l - 1\<rparr>))))
      else Inr (h, l))"

text \<open>
  In the general case of \<open>insert\<close> the node is allocated before the traversal, with only
  its value set; its links are assigned afterwards, in the order of the source. Until
  then they hold \<open>nullptr\<close> in the model (C++ leaves them indeterminate).
\<close>

definition DList_insert ::
  "'a DNode heap \<Rightarrow> Container \<Rightarrow> nat \<Rightarrow> 'a \<Rightarrow> error + ('a DNode heap \<times> Container)" where
  "DList_insert h l index val =
     (if index \<le> size_m l
      then
        if index = 0 then DList_push_front h l val
        else if index = size_m l then DList_push_back h l val
        else
          let (tmp, h1) = heap_new h \<lparr>dvalue = val, dnext = None, dprevious = None\<rparr> in
          ebind (DList_node_at h1 l index) (\<lambda>current.
          ebind (heap_read h1 current) (\<lambda>c.
          ebind (heap_write h1 (dprevious c) (\<lambda>n. n\<lparr>dnext := Some tmp\<rparr>)) (\<lambda>h2.
          ebind (heap_read h2 current) (\<lambda>c2.
          ebind (heap_write h2 (Some tmp) (\<lambda>n. n\<lparr>dprevious := dprevious c2\<rparr>)) (\<lambda>h3.
          ebind (heap_write h3 (Some tmp) (\<lambda>n. n\<lparr>dnext := current\<rparr>)) (\<lambda>h4.
          ebind (heap_write h4 current (\<lambda>n. n\<lparr>dprevious := Some tmp\<rparr>)) (\<lambda>h5.
            Inr (h5, l\<lparr>size_m := size_m l + 1\<rparr>))))))))
      else Inr (h, l))"

definition DList_remove ::
  "'a DNode heap \<Rightarrow> Container \<Rightarrow> nat \<Rightarrow> error + ('a DNode heap \<times> Container)" where
  "DList_remove h l index =
     (if index < size_m l
      then
        if index = 0 then DList_pop_front h l
        else if index = size_m l - 1 then DList_pop_back h l
        else
          ebind (DList_node_at h l index) (\<lambda>current.
          ebind (heap_read h current) (\<lambda>c.
          ebind (heap_write h (dprevious c) (\<lambda>n. n\<lparr>dnext := dnext c\<rparr>)) (\<lambda>h1.
          ebind (heap_read h1 current) (\<lambda>c1.
          ebind (heap_write h1 (dnext c1) (\<lambda>n. n\<lparr>dprevious := dprevious c1\<rparr>)) (\<lambda>h2.
          ebind (heap_delete h2 current) (\<lambda>h3.
            Inr (h3, l\<lparr>size_m := size_m l - 1\<rparr>)))))))
      else Inr (h, l))"


subsection \<open>Construction and assignment\<close>

text \<open>
  The loop \<open>while(other_current->next)\<close> of the copy constructor and of copy assignment.
  It need not terminate on a cyclic chain, so it is a partial function: \<open>None\<close> is a loop
  that never returns. A node is created and initialised in one step from the value read
  in \<open>other\<close>.
\<close>

partial_function (option) DList_copy_loop ::
  "'a DNode heap \<Rightarrow> ptr \<Rightarrow> ptr \<Rightarrow> (error + ('a DNode heap \<times> ptr)) option" where
  "DList_copy_loop h current other_current =
     (case heap_read h other_current of
        Inl e \<Rightarrow> Some (Inl e)
      | Inr oc \<Rightarrow>
          if dnext oc \<noteq> None
          then (case heap_read h (dnext oc) of
                  Inl e \<Rightarrow> Some (Inl e)
                | Inr on \<Rightarrow>
                    let (a, h1) = heap_new h \<lparr>dvalue = dvalue on, dnext = None, dprevious = current\<rparr> in
                    (case heap_write h1 current (\<lambda>n. n\<lparr>dnext := Some a\<rparr>) of
                       Inl e \<Rightarrow> Some (Inl e)
                     | Inr h2 \<Rightarrow> DList_copy_loop h2 (Some a) (dnext oc)))
          else Some (Inr (h, current)))"

text \<open>The body both the copy constructor and copy assignment run once \<open>size_\<close> is set.\<close>

definition DList_copy_nodes ::
  "'a DNode heap \<Rightarrow> Container \<Rightarrow> Container \<Rightarrow> (error + ('a DNode heap \<times> Container)) option" where
  "DList_copy_nodes h l other =
     (if size_m l \<noteq> 0
      then (case heap_read h (head_m other) of
              Inl e \<Rightarrow> Some (Inl e)
            | Inr oh \<Rightarrow>
                let (a, h1) = heap_new h \<lparr>dvalue = dvalue oh, dnext = None, dprevious = None\<rparr> in
                (case DList_copy_loop h1 (Some a) (head_m other) of
                   None \<Rightarrow> None
                 | Some (Inl e) \<Rightarrow> Some (Inl e)
                 | Some (Inr (h2, current)) \<Rightarrow>
                     Some (Inr (h2, l\<lparr>head_m := Some a, tail_m := current\<rparr>))))
      else Some (Inr (h, l)))"

definition DList_copy_ctor ::
  "'a DNode heap \<Rightarrow> Container \<Rightarrow> (error + ('a DNode heap \<times> Container)) option" where
  "DList_copy_ctor h other =
     DList_copy_nodes h \<lparr>head_m = None, tail_m = None, size_m = size_m other\<rparr> other"

text \<open>The move constructor returns the new container and what is left of \<open>other\<close>.\<close>

definition DList_move_ctor :: "Container \<Rightarrow> Container \<times> Container" where
  "DList_move_ctor other =
     (\<lparr>head_m = head_m other, tail_m = tail_m other, size_m = size_m other\<rparr>,
      other\<lparr>head_m := None, tail_m := None, size_m := 0\<rparr>)"

text \<open>
  The assignment operators compare \<open>this\<close> with \<open>&other\<close>, so the containers live in an
  object store and are named by their position in it.
\<close>

definition DList_copy_assign ::
  "'a DNode heap \<Rightarrow> Container list \<Rightarrow> nat \<Rightarrow> nat
     \<Rightarrow> (error + ('a DNode heap \<times> Container list)) option" where
  "DList_copy_assign h objs this other =
     (if this \<noteq> other
      then (case DList_clear h (objs ! this) of
              Inl e \<Rightarrow> Some (Inl e)
            | Inr (h1, l1) \<Rightarrow>
                (case DList_copy_nodes h1 (l1\<lparr>size_m := size_m (objs ! other)\<rparr>) (objs ! other) of
                   None \<Rightarrow> None
                 | Some (Inl e) \<Rightarrow> Some (Inl e)
                 | Some (Inr (h2, l2)) \<Rightarrow> Some (Inr (h2, objs[this := l2]))))
      else Some (Inr (h, objs)))"

definition DList_move_assign ::
  "'a DNode heap \<Rightarrow> Container list \<Rightarrow> nat \<Rightarrow> nat \<Rightarrow> error + ('a DNode heap \<times> Container list)" where
  "DList_move_assign h objs this other =
     (if this \<noteq> other
      then ebind (DList_clear h (objs ! this)) (\<lambda>(h1, l1).
             Inr (h1, objs[this := l1\<lparr>head_m := head_m (objs ! other),
                                      tail_m := tail_m (objs ! other),
                                      size_m := size_m (objs ! other)\<rparr>,
                           other := (objs ! other)\<lparr>head_m := None, tail_m := None, size_m := 0\<rparr>]))
      else Inr (h, objs))"

subsection \<open>Cursors\<close>

text \<open>
  \<open>operator*\<close>, prefix \<open>operator++\<close> and \<open>operator--\<close> of the four iterator classes, and
  the loop of their \<open>operator+=\<close> and \<open>operator-=\<close>.
\<close>

definition DList_deref :: "'a DNode heap \<Rightarrow> Cursor \<Rightarrow> error + 'a" where
  "DList_deref h it = ebind (heap_read h (node it)) (\<lambda>n. Inr (dvalue n))"

fun DList_incr :: "cursor_class \<Rightarrow> 'a DNode heap \<Rightarrow> Cursor \<Rightarrow> error + Cursor" where
  "DList_incr Iterator h it =
     (if node it \<noteq> None then ebind (heap_read h (node it)) (\<lambda>n. Inr (it\<lparr>node := dnext n\<rparr>))
      else Inr it)"
| "DList_incr ConstIterator h it =
     (if node it \<noteq> None then ebind (heap_read h (node it)) (\<lambda>n. Inr (it\<lparr>node := dnext n\<rparr>))
      else Inr it)"
| "DList_incr ReverseIterator h it =
     (if node it \<noteq> None then ebind (heap_read h (node it)) (\<lambda>n. Inr (it\<lparr>node := dprevious n\<rparr>))
      else Inr it)"
| "DList_incr ConstReverseIterator h it =
     (if node it \<noteq> None then ebind (heap_read h (node it)) (\<lambda>n. Inr (it\<lparr>node := dprevious n\<rparr>))
      else Inr it)"

fun DList_decr :: "cursor_class \<Rightarrow> 'a DNode heap \<Rightarrow> Cursor \<Rightarrow> error + Cursor" where
  "DList_decr Iterator h it =
     (if node it \<noteq> None then ebind (heap_read h (node it)) (\<lambda>n. Inr (it\<lparr>node := dprevious n\<rparr>))
      else Inr it)"
| "DList_decr ConstIterator h it =
     (if node it \<noteq> None then ebind (heap_read h (node it)) (\<lambda>n. Inr (it\<lparr>node := dprevious n\<rparr>))
      else Inr it)"
| "DList_decr ReverseIterator h it =
     (if node it \<noteq> None then ebind (heap_read h (node it)) (\<lambda>n. Inr (it\<lparr>node := dnext n\<rparr>))
      else Inr it)"
| "DList_decr ConstReverseIterator h it =
     (if node it \<noteq> None then ebind (heap_read h (node it)) (\<lambda>n. Inr (it\<lparr>node := dnext n\<rparr>))
      else Inr it)"

text \<open>\<open>for(size_t i = 0; i < rhs; ++i) { ++(*this); }\<close>, and the same with \<open>--\<close>.\<close>

function step_loop ::
  "(Cursor \<Rightarrow> error + Cursor) \<Rightarrow> nat \<Rightarrow> nat \<Rightarrow> Cursor \<Rightarrow> error + Cursor" where
  "step_loop step i rhs it =
     (if i < rhs
      then (case step it of Inl e \<Rightarrow> Inl e | Inr it' \<Rightarrow> step_loop step (Suc i) rhs it')
      else Inr it)"
  by pat_completeness auto
termination
  by (relation "measure (\<lambda>(step, i, rhs, it). rhs - i)") auto

definition DList_plus_assign ::
  "cursor_class \<Rightarrow> 'a DNode heap \<Rightarrow> Cursor \<Rightarrow> nat \<Rightarrow> error + Cursor" where
  "DList_plus_assign c h it rhs = step_loop (DList_incr c h) 0 rhs it"

definition DList_minus_assign ::
  "cursor_class \<Rightarrow> 'a DNode heap \<Rightarrow> Cursor \<Rightarrow> nat \<Rightarrow> error + Cursor" where
  "DList_minus_assign c h it rhs = step_loop (DList_decr c h) 0 rhs it"

definition DList_begin :: "Container \<Rightarrow> Cursor" where
  "DList_begin l = \<lparr>node = head_m l\<rparr>"

definition DList_end :: "'a DNode heap \<Rightarrow> Container \<Rightarrow> error + Cursor" where
  "DList_end h l = ebind (heap_read h (tail_m l)) (\<lambda>t. Inr \<lparr>node = dnext t\<rparr>)"

definition DList_cbegin :: "Container \<Rightarrow> Cursor" where
  "DList_cbegin l = \<lparr>node = head_m l\<rparr>"

definition DList_cend :: "'a DNode heap \<Rightarrow> Container \<Rightarrow> error + Cursor" where
  "DList_cend h l = ebind (heap_read h (tail_m l)) (\<lambda>t. Inr \<lparr>node = dnext t\<rparr>)"

definition DList_rbegin :: "Container \<Rightarrow> Cursor" where
  "DList_rbegin l = \<lparr>node = tail_m l\<rparr>"

definition DList_rend :: "'a DNode heap \<Rightarrow> Container \<Rightarrow> error + Cursor" where
  "DList_rend h l = ebind (heap_read h (head_m l)) (\<lambda>t. Inr \<lparr>node = dprevious t\<rparr>)"

definition DList_crbegin :: "Container \<Rightarrow> Cursor" where
  "DList_crbegin l = \<lparr>node = tail_m l\<rparr>"

definition DList_crend :: "'a DNode heap \<Rightarrow> Container \<Rightarrow> error + Cursor" where
  "DList_crend h l = ebind (heap_read h (head_m l)) (\<lambda>t. Inr \<lparr>node = dprevious t\<rparr>)"


section \<open>The singly linked list\<close>

subsection \<open>Capacity and element access\<close>

definition List_size :: "Container \<Rightarrow> nat" where
  "List_size l = size_m l"

definition List_empty :: "Container \<Rightarrow> bool" where
  "List_empty l = (head_m l = None)"

definition List_front :: "'a SNode heap \<Rightarrow> Container \<Rightarrow> error + 'a" where
  "List_front h l = ebind (heap_read h (head_m l)) (\<lambda>n. Inr (svalue n))"

definition List_back :: "'a SNode heap \<Rightarrow> Container \<Rightarrow> error + 'a" where
  "List_back h l = ebind (heap_read h (tail_m l)) (\<lambda>n. Inr (svalue n))"

function List_walk_next :: "'a SNode heap \<Rightarrow> nat \<Rightarrow> nat \<Rightarrow> ptr \<Rightarrow> error + ptr" where
  "List_walk_next h i index current =
     (if i < index
      then (case heap_read h current of
              Inl e \<Rightarrow> Inl e
            | Inr n \<Rightarrow> List_walk_next h (Suc i) index (snext n))
      else Inr current)"
  by pat_completeness auto
termination
  by (relation "measure (\<lambda>(h, i, index, current). index - i)") auto

definition List_subscript :: "'a SNode heap \<Rightarrow> Container \<Rightarrow> nat \<Rightarrow> error + 'a" where
  "List_subscript h l index =
     ebind (List_walk_next h 0 index (head_m l)) (\<lambda>current.
     ebind (heap_read h current) (\<lambda>n. Inr (svalue n)))"

definition List_at_message :: "nat \<Rightarrow> nat \<Rightarrow> string" where
  "List_at_message index sz =
     ''[Out of range error] - manual::LinkedList::at() - (index: '' @ to_string index
       @ '', size: '' @ to_string sz @ '').''"

definition List_at :: "'a SNode heap \<Rightarrow> Container \<Rightarrow> nat \<Rightarrow> error + 'a" where
  "List_at h l index =
     (if size_m l \<le> index then Inl (OutOfRange (List_at_message index (size_m l)))
      else List_subscript h l index)"

subsection \<open>Modifiers\<close>

function List_delete_all :: "'a SNode heap \<Rightarrow> nat \<Rightarrow> nat \<Rightarrow> ptr \<Rightarrow> error + 'a SNode heap" where
  "List_delete_all h i sz current =
     (if i < sz
      then (case heap_read h current of
              Inl e \<Rightarrow> Inl e
            | Inr n \<Rightarrow>
                (case heap_delete h current of
                   Inl e \<Rightarrow> Inl e
                 | Inr h' \<Rightarrow> List_delete_all h' (Suc i) sz (snext n)))
      else Inr h)"
  by pat_completeness auto
termination
  by (relation "measure (\<lambda>(h, i, sz, current). sz - i)") auto

definition List_clear :: "'a SNode heap \<Rightarrow> Container \<Rightarrow> error + ('a SNode heap \<times> Container)" where
  "List_clear h l =
     (if size_m l \<noteq> 0
      then ebind (List_delete_all h 0 (size_m l) (head_m l)) (\<lambda>h'.
             Inr (h', l\<lparr>head_m := None, tail_m := None, size_m := 0\<rparr>))
      else Inr (h, l))"

definition List_push_back ::
  "'a SNode heap \<Rightarrow> Container \<Rightarrow> 'a \<Rightarrow> error + ('a SNode heap \<times> Container)" where
  "List_push_back h l val =
     (let (tmp, h1) = heap_new h \<lparr>svalue = val, snext = None\<rparr> in
      if size_m l \<noteq> 0
      then ebind (heap_write h1 (tail_m l) (\<lambda>n. n\<lparr>snext := Some tmp\<rparr>)) (\<lambda>h2.
             Inr (h2, l\<lparr>tail_m := Some tmp, size_m := size_m l + 1\<rparr>))
      else Inr (h1, l\<lparr>head_m := Some tmp, tail_m := Some tmp, size_m := size_m l + 1\<rparr>))"

definition List_push_front ::
  "'a SNode heap \<Rightarrow> Container \<Rightarrow> 'a \<Rightarrow> error + ('a SNode heap \<times> Container)" where
  "List_push_front h l val =
     (let (tmp, h1) = heap_new h \<lparr>svalue = val, snext = head_m l\<rparr> in
      if \<not> size_m l \<noteq> 0
      then Inr (h1, l\<lparr>head_m := Some tmp, tail_m := Some tmp, size_m := size_m l + 1\<rparr>)
      else Inr (h1, l\<lparr>head_m := Some tmp, size_m := size_m l + 1\<rparr>))"

text \<open>
  The search of \<open>pop_back\<close> for the node before the tail:
  \<open>while(!stop) { if(current->next == tail_) stop = true; else current = current->next; }\<close>.
  It has no bound of its own, so it is a partial function too.
\<close>

partial_function (option) List_find_before_tail ::
  "'a SNode heap \<Rightarrow> ptr \<Rightarrow> ptr \<Rightarrow> (error + ptr) option" where
  "List_find_before_tail h tail current =
     (case heap_read h current of
        Inl e \<Rightarrow> Some (Inl e)
      | Inr n \<Rightarrow>
          if snext n = tail then Some (Inr current)
          else List_find_before_tail h tail (snext n))"

definition List_pop_back ::
  "'a SNode heap \<Rightarrow> Container \<Rightarrow> (error + ('a SNode heap \<times> Container)) option" where
  "List_pop_back h l =
     (if size_m l \<noteq> 0
      then
        if size_m l = 1
        then Some (ebind (heap_delete h (head_m l)) (\<lambda>h1.
               Inr (h1, l\<lparr>head_m := None, tail_m := None, size_m := size_m l - 1\<rparr>)))
        else (case List_find_before_tail h (tail_m l) (head_m l) of
                None \<Rightarrow> None
              | Some r \<Rightarrow> Some (
                  ebind r (\<lambda>current.
                  ebind (heap_read h current) (\<lambda>c.
                  ebind (heap_delete h (snext c)) (\<lambda>h1.
                  ebind (heap_write h1 current (\<lambda>n. n\<lparr>snext := None\<rparr>)) (\<lambda>h2.
                    Inr (h2, l\<lparr>tail_m := current, size_m := size_m l - 1\<rparr>)))))))
      else Some (Inr (h, l)))"

definition List_pop_front :: "'a SNode heap \<Rightarrow> Container \<Rightarrow> error + ('a SNode heap \<times> Container)" where
  "List_pop_front h l =
     (if size_m l \<noteq> 0
      then ebind (heap_read h (head_m l)) (\<lambda>t.
           let tmp = snext t in
           ebind (heap_delete h (head_m l)) (\<lambda>h1.
             if size_m l = 1
             then Inr (h1, l\<lparr>head_m := tmp, tail_m := None, size_m := size_m l - 1\<rparr>)
             else Inr (h1, l\<lparr>head_m := tmp, size_m := size_m l - 1\<rparr>)))
      else Inr (h, l))"

text \<open>
  The loop of \<open>insert\<close> and \<open>remove\<close>:
  \<open>for(i = 0; i < index; ++i) { prev = current; current = current->next; }\<close>.
\<close>

function List_walk_prev ::
  "'a SNode heap \<Rightarrow> nat \<Rightarrow> nat \<Rightarrow> ptr \<Rightarrow> ptr \<Rightarrow> error + (ptr \<times> ptr)" where
  "List_walk_prev h i index prev current =
     (if i < index
      then (case heap_read h current of
              Inl e \<Rightarrow> Inl e
            | Inr n \<Rightarrow> List_walk_prev h (Suc i) index current (snext n))
      else Inr (prev, current))"
  by pat_completeness auto
termination
  by (relation "measure (\<lambda>(h, i, index, prev, current). index - i)") auto

definition List_insert ::
  "'a SNode heap \<Rightarrow> Container \<Rightarrow> nat \<Rightarrow> 'a \<Rightarrow> error + ('a SNode heap \<times> Container)" where
  "List_insert h l index val =
     (if index \<le> size_m l
      then
        if index = 0 then List_push_front h l val
        else if index = size_m l then List_push_back h l val
        else
          let (tmp, h1) = heap_new h \<lparr>svalue = val, snext = None\<rparr> in
          ebind (List_walk_prev h1 0 index None (head_m l)) (\<lambda>(prev, current).
          ebind (heap_write h1 prev (\<lambda>n. n\<lparr>snext := Some tmp\<rparr>)) (\<lambda>h2.
          ebind (heap_write h2 (Some tmp) (\<lambda>n. n\<lparr>snext := current\<rparr>)) (\<lambda>h3.
            Inr (h3, l\<lparr>size_m := size_m l + 1\<rparr>))))
      else Inr (h, l))"

definition List_remove ::
  "'a SNode heap \<Rightarrow> Container \<Rightarrow> nat \<Rightarrow> (error + ('a SNode heap \<times> Container)) option" where
  "List_remove h l index =
     (if index < size_m l
      then
        if index = 0 then Some (List_pop_front h l)
        else if index = size_m l - 1 then List_pop_back h l
        else Some (
          ebind (List_walk_prev h 0 index None (head_m l)) (\<lambda>(prev, current).
          ebind (heap_read h current) (\<lambda>c.
          ebind (heap_write h prev (\<lambda>n. n\<lparr>snext := snext c\<rparr>)) (\<lambda>h1.
          ebind (heap_delete h1 current) (\<lambda>h2.
            Inr (h2, l\<lparr>size_m := size_m l - 1\<rparr>))))))
      else Some (Inr (h, l)))"

subsection \<open>Construction and assignment\<close>

partial_function (option) List_copy_loop ::
  "'a SNode heap \<Rightarrow> ptr \<Rightarrow> ptr \<Rightarrow> (error + ('a SNode heap \<times> ptr)) option" where
  "List_copy_loop h current other_current =
     (case heap_read h other_current of
        Inl e \<Rightarrow> Some (Inl e)
      | Inr oc \<Rightarrow>
          if snext oc \<noteq> None
          then (case heap_read h (snext oc) of
                  Inl e \<Rightarrow> Some (Inl e)
                | Inr on \<Rightarrow>
                    let (a, h1) = heap_new h \<lparr>svalue = svalue on, snext = None\<rparr> in
                    (case heap_write h1 current (\<lambda>n. n\<lparr>snext := Some a\<rparr>) of
                       Inl e \<Rightarrow> Some (Inl e)
                     | Inr h2 \<Rightarrow> List_copy_loop h2 (Some a) (snext oc)))
          else Some (Inr (h, current)))"

definition List_copy_nodes ::
  "'a SNode heap \<Rightarrow> Container \<Rightarrow> Container \<Rightarrow> (error + ('a SNode heap \<times> Container)) option" where
  "List_copy_nodes h l other =
     (if size_m l \<noteq> 0
      then (case heap_read h (head_m other) of
              Inl e \<Rightarrow> Some (Inl e)
            | Inr oh \<Rightarrow>
                let (a, h1) = heap_new h \<lparr>svalue = svalue oh, snext = None\<rparr> in
                (case List_copy_loop h1 (Some a) (head_m other) of
                   None \<Rightarrow> None
                 | Some (Inl e) \<Rightarrow> Some (Inl e)
                 | Some (Inr (h2, current)) \<Rightarrow>
                     Some (Inr (h2, l\<lparr>head_m := Some a, tail_m := current\<rparr>))))
      else Some (Inr (h, l)))"

definition List_copy_ctor ::
  "'a SNode heap \<Rightarrow> Container \<Rightarrow> (error + ('a SNode heap \<times> Container)) option" where
  "List_copy_ctor h other =
     List_copy_nodes h \<lparr>head_m = None, tail_m = None, size_m = size_m other\<rparr> other"

definition List_move_ctor :: "Container \<Rightarrow> Container \<times> Container" where
  "List_move_ctor other =
     (\<lparr>head_m = head_m other, tail_m = tail_m other, size_m = size_m other\<rparr>,
      other\<lparr>head_m := None, tail_m := None, size_m := 0\<rparr>)"

definition List_copy_assign ::
  "'a SNode heap \<Rightarrow> Container list \<Rightarrow> nat \<Rightarrow> nat
     \<Rightarrow> (error + ('a SNode heap \<times> Container list)) option" where
  "List_copy_assign h objs this other =
     (if this \<noteq> other
      then (case List_clear h (objs ! this) of
              Inl e \<Rightarrow> Some (Inl e)
            | Inr (h1, l1) \<Rightarrow>
                (case List_copy_nodes h1 (l1\<lparr>size_m := size_m (objs ! other)\<rparr>) (objs ! other) of
                   None \<Rightarrow> None
                 | Some (Inl e) \<Rightarrow> Some (Inl e)
                 | Some (Inr (h2, l2)) \<Rightarrow> Some (Inr (h2, objs[this := l2]))))
      else Some (Inr (h, objs)))"

definition List_move_assign ::
  "'a SNode heap \<Rightarrow> Container list \<Rightarrow> nat \<Rightarrow> nat \<Rightarrow> error + ('a SNode heap \<times> Container list)" where
  "List_move_assign h objs this other =
     (if this \<noteq> other
      then ebind (List_clear h (objs ! this)) (\<lambda>(h1, l1).
             Inr (h1, objs[this := l1\<lparr>head_m := head_m (objs ! other),
                                      tail_m := tail_m (objs ! other),
                                      size_m := size_m (objs ! other)\<rparr>,
                           other := (objs ! other)\<lparr>head_m := None, tail_m := None, size_m := 0\<rparr>]))
      else Inr (h, objs))"

subsection \<open>Cursors\<close>

text \<open>
  \<open>Iterator\<close> and \<open>ConstIterator\<close> of the singly linked list have the same \<open>operator++\<close>
  and \<open>operator+=\<close>, textually, and no \<open>operator--\<close>.
\<close>

definition List_deref :: "'a SNode heap \<Rightarrow> Cursor \<Rightarrow> error + 'a" where
  "List_deref h it = ebind (heap_read h (node it)) (\<lambda>n. Inr (svalue n))"

definition List_incr :: "'a SNode heap \<Rightarrow> Cursor \<Rightarrow> error + Cursor" where
  "List_incr h it =
     (if node it \<noteq> None then ebind (heap_read h (node it)) (\<lambda>n. Inr (it\<lparr>node := snext n\<rparr>))
      else Inr it)"

definition List_plus_assign :: "'a SNode heap \<Rightarrow> Cursor \<Rightarrow> nat \<Rightarrow> error + Cursor" where
  "List_plus_assign h it rhs = step_loop (List_incr h) 0 rhs it"

definition List_begin :: "Container \<Rightarrow> Cursor" where
  "List_begin l = \<lparr>node = head_m l\<rparr>"

definition List_end :: "'a SNode heap \<Rightarrow> Container \<Rightarrow> error + Cursor" where
  "List_end h l = ebind (heap_read h (tail_m l)) (\<lambda>t. Inr \<lparr>node = snext t\<rparr>)"

definition List_cbegin :: "Container \<Rightarrow> Cursor" where
  "List_cbegin l = \<lparr>node = head_m l\<rparr>"

definition List_cend :: "'a SNode heap \<Rightarrow> Container \<Rightarrow> error + Cursor" where
  "List_cend h l = ebind (heap_read h (tail_m l)) (\<lambda>t. Inr \<lparr>node = snext t\<rparr>)"


section \<open>Abstraction and invariants\<close>

text \<open>
  A container in a store stands for a sequence of elements. \<open>DList_chain\<close> follows the
  \<open>next\<close> links from \<open>head_\<close> for \<open>size_\<close> nodes; the addresses and values it finds are
  the abstract state. \<open>DList_repr h l as xs\<close> says that the nodes at the addresses \<open>as\<close>,
  pairwise different, hold the elements \<open>xs\<close> and are linked to one another as a doubly
  linked list is, with \<open>head_\<close>, \<open>tail_\<close> and \<open>size_\<close> the first address, the last address
  and the number of nodes. \<open>DList_inv\<close> is the invariant of the class: the container
  represents what its chain gives.
\<close>

definition nth_ptr :: "addr list \<Rightarrow> nat \<Rightarrow> ptr" where
  "nth_ptr as i = (if i < length as then Some (as ! i) else None)"

definition DList_link :: "addr list \<Rightarrow> 'a list \<Rightarrow> nat \<Rightarrow> 'a DNode" where
  "DList_link as xs i =
     \<lparr>dvalue = xs ! i, dnext = nth_ptr as (Suc i),
      dprevious = (if i = 0 then None else Some (as ! (i - 1)))\<rparr>"

definition DList_repr :: "'a DNode heap \<Rightarrow> Container \<Rightarrow> addr list \<Rightarrow> 'a list \<Rightarrow> bool" where
  "DList_repr h l as xs \<longleftrightarrow>
     length xs = length as \<and> distinct as \<and> size_m l = length as \<and>
     head_m l = nth_ptr as 0 \<and> tail_m l = nth_ptr as (length as - 1) \<and>
     list_all (\<lambda>i. heap_read h (Some (as ! i)) = Inr (DList_link as xs i)) [0..<length as]"

fun DList_chain :: "'a DNode heap \<Rightarrow> ptr \<Rightarrow> nat \<Rightarrow> (addr \<times> 'a DNode) list" where
  "DList_chain h p 0 = []"
| "DList_chain h p (Suc k) =
     (case p of
        None \<Rightarrow> []
      | Some a \<Rightarrow>
          (case heap_read h p of
             Inl e \<Rightarrow> []
           | Inr n \<Rightarrow> (a, n) # DList_chain h (dnext n) k))"

definition DList_addrs :: "'a DNode heap \<Rightarrow> Container \<Rightarrow> addr list" where
  "DList_addrs h l = map fst (DList_chain h (head_m l) (size_m l))"

definition DList_values :: "'a DNode heap \<Rightarrow> Container \<Rightarrow> 'a list" where
  "DList_values h l = map (\<lambda>(a, n). dvalue n) (DList_chain h (head_m l) (size_m l))"

definition DList_inv :: "'a DNode heap \<Rightarrow> Container \<Rightarrow> bool" where
  "DList_inv h l \<longleftrightarrow> DList_repr h l (DList_addrs h l) (DList_values h l)"

definition List_link :: "addr list \<Rightarrow> 'a list \<Rightarrow> nat \<Rightarrow> 'a SNode" where
  "List_link as xs i = \<lparr>svalue = xs ! i, snext = nth_ptr as (Suc i)\<rparr>"

definition List_repr :: "'a SNode heap \<Rightarrow> Container \<Rightarrow> addr list \<Rightarrow> 'a list \<Rightarrow> bool" where
  "List_repr h l as xs \<longleftrightarrow>
     length xs = length as \<and> distinct as \<and> size_m l = length as \<and>
     head_m l = nth_ptr as 0 \<and> tail_m l = nth_ptr as (length as - 1) \<and>
     list_all (\<lambda>i. heap_read h (Some (as ! i)) = Inr (List_link as xs i)) [0..<length as]"

fun List_chain :: "'a SNode heap \<Rightarrow> ptr \<Rightarrow> nat \<Rightarrow> (addr \<times> 'a SNode) list" where
  "List_chain h p 0 = []"
| "List_chain h p (Suc k) =
     (case p of
        None \<Rightarrow> []
      | Some a \<Rightarrow>
          (case heap_read h p of
             Inl e \<Rightarrow> []
           | Inr n \<Rightarrow> (a, n) # List_chain h (snext n) k))"

definition List_addrs :: "'a SNode heap \<Rightarrow> Container \<Rightarrow> addr list" where
  "List_addrs h l = map fst (List_chain h (head_m l) (size_m l))"

definition List_values :: "'a SNode heap \<Rightarrow> Container \<Rightarrow> 'a list" where
  "List_values h l = map (\<lambda>(a, n). svalue n) (List_chain h (head_m l) (size_m l))"

definition List_inv :: "'a SNode heap \<Rightarrow> Container \<Rightarrow> bool" where
  "List_inv h l \<longleftrightarrow> List_repr h l (List_addrs h l) (List_values h l)"


subsection \<open>The invariants as the specification states them\<close>

text \<open>
  \<open>size == 0 \<Leftrightarrow> head is absent \<Leftrightarrow> tail is absent\<close> and \<open>size == 1 \<Leftrightarrow> head == tail\<close>,
  word for word, where \<open>head == tail\<close> compares the two pointers.
\<close>

definition Container_invariants_stated :: "Container \<Rightarrow> bool" where
  "Container_invariants_stated l \<longleftrightarrow>
     (size_m l = 0) = (head_m l = None) \<and> (head_m l = None) = (tail_m l = None) \<and>
     (size_m l = 1) = (head_m l = tail_m l)"

text \<open>The same with the second line read for a head that is present.\<close>

definition Container_invariants :: "Container \<Rightarrow> bool" where
  "Container_invariants l \<longleftrightarrow>
     (size_m l = 0) = (head_m l = None) \<and> (head_m l = None) = (tail_m l = None) \<and>
     (size_m l = 1) = (head_m l \<noteq> None \<and> head_m l = tail_m l)"

text \<open>
  For every node \<open>n\<close> of the container with \<open>n.next = m\<close> present, \<open>m.previous == n\<close>;
  \<open>head.previous\<close> is absent; \<open>tail.next\<close> is absent.
\<close>

definition DList_link_invariants :: "'a DNode heap \<Rightarrow> Container \<Rightarrow> bool" where
  "DList_link_invariants h l \<longleftrightarrow>
     list_all (\<lambda>(a, n). case dnext n of
                            None \<Rightarrow> True
                          | Some m \<Rightarrow> (case heap_read h (Some m) of
                                        Inl e \<Rightarrow> False
                                      | Inr nm \<Rightarrow> dprevious nm = Some a))
       (DList_chain h (head_m l) (size_m l)) \<and>
     (case head_m l of
        None \<Rightarrow> True
      | Some a \<Rightarrow> (case heap_read h (Some a) of Inl e \<Rightarrow> False | Inr n \<Rightarrow> dprevious n = None)) \<and>
     (case tail_m l of
        None \<Rightarrow> True
      | Some a \<Rightarrow> (case heap_read h (Some a) of Inl e \<Rightarrow> False | Inr n \<Rightarrow> dnext n = None))"

text \<open>
  What the operations are shown to keep: the class invariant together with the
  invariants above.
\<close>

definition DList_invariants :: "'a DNode heap \<Rightarrow> Container \<Rightarrow> bool" where
  "DList_invariants h l \<longleftrightarrow> DList_inv h l \<and> Container_invariants l \<and> DList_link_invariants h l"

definition List_invariants :: "'a SNode heap \<Rightarrow> Container \<Rightarrow> bool" where
  "List_invariants h l \<longleftrightarrow> List_inv h l \<and> Container_invariants l"

section \<open>Reference definitions for the refinement and cost claims\<close>

text \<open>The naive lookup the specification compares \<open>operator[]\<close> with: forward from head.\<close>

definition DList_naive_subscript :: "'a DNode heap \<Rightarrow> Container \<Rightarrow> nat \<Rightarrow> error + 'a" where
  "DList_naive_subscript h l index =
     ebind (DList_walk_next h 0 index (head_m l)) (\<lambda>current.
     ebind (heap_read h current) (\<lambda>n. Inr (dvalue n)))"

text \<open>
  The two loops of \<open>operator[]\<close> again, with a ghost list that records every node
  \<open>current\<close> points to, in the order of the visits.
\<close>

function DList_walk_next_visits :: "'a DNode heap \<Rightarrow> nat \<Rightarrow> nat \<Rightarrow> ptr \<Rightarrow> error + ptr list" where
  "DList_walk_next_visits h i index current =
     (if i < index
      then (case heap_read h current of
              Inl e \<Rightarrow> Inl e
            | Inr n \<Rightarrow> ebind (DList_walk_next_visits h (Suc i) index (dnext n))
                        (\<lambda>visited. Inr (current # visited)))
      else Inr [current])"
  by pat_completeness auto
termination
  by (relation "measure (\<lambda>(h, i, index, current). index - i)") auto

function DList_walk_previous_visits :: "'a DNode heap \<Rightarrow> nat \<Rightarrow> nat \<Rightarrow> ptr \<Rightarrow> error + ptr list" where
  "DList_walk_previous_visits h i index current =
     (if index < i
      then (case heap_read h current of
              Inl e \<Rightarrow> Inl e
            | Inr n \<Rightarrow> ebind (DList_walk_previous_visits h (i - 1) index (dprevious n))
                        (\<lambda>visited. Inr (current # visited)))
      else Inr [current])"
  by pat_completeness auto
termination
  by (relation "measure (\<lambda>(h, i, index, current). i - index)") auto

definition DList_node_at_visits :: "'a DNode heap \<Rightarrow> Container \<Rightarrow> nat \<Rightarrow> error + ptr list" where
  "DList_node_at_visits h l index =
     (if closer_to_end (size_m l) index
      then DList_walk_previous_visits h (size_t_sub (size_m l) 1) index (tail_m l)
      else DList_walk_next_visits h 0 index (head_m l))"

text \<open>\<open>n\<close> repeated single steps.\<close>

primrec repeat_steps :: "nat \<Rightarrow> (Cursor \<Rightarrow> error + Cursor) \<Rightarrow> Cursor \<Rightarrow> error + Cursor" where
  "repeat_steps 0 step it = Inr it"
| "repeat_steps (Suc n) step it = ebind (step it) (repeat_steps n step)"

text \<open>
  The loop of a caller that walks a container: \<open>for(it = begin(); it != end(); ++it)\<close>,
  collecting \<open>*it\<close>. \<open>operator!=\<close> compares the \<open>node\<close> members.
\<close>

partial_function (option) traverse ::
  "(Cursor \<Rightarrow> error + 'a) \<Rightarrow> (Cursor \<Rightarrow> error + Cursor) \<Rightarrow> Cursor \<Rightarrow> Cursor \<Rightarrow> 'a list
     \<Rightarrow> (error + 'a list) option" where
  "traverse get step it stop visited =
     (if node it \<noteq> node stop
      then (case get it of
              Inl e \<Rightarrow> Some (Inl e)
            | Inr v \<Rightarrow>
                (case step it of
                   Inl e \<Rightarrow> Some (Inl e)
                 | Inr it' \<Rightarrow> traverse get step it' stop (visited @ [v])))
      else Some (Inr visited))"

definition DList_forward_traversal :: "'a DNode heap \<Rightarrow> Container \<Rightarrow> (error + 'a list) option" where
  "DList_forward_traversal h l =
     (case DList_end h l of
        Inl e \<Rightarrow> Some (Inl e)
      | Inr stop \<Rightarrow> traverse (DList_deref h) (DList_incr Iterator h) (DList_begin l) stop [])"

definition DList_reverse_traversal :: "'a DNode heap \<Rightarrow> Container \<Rightarrow> (error + 'a list) option" where
  "DList_reverse_traversal h l =
     (case DList_rend h l of
        Inl e \<Rightarrow> Some (Inl e)
      | Inr stop \<Rightarrow> traverse (DList_deref h) (DList_incr ReverseIterator h) (DList_rbegin l) stop [])"

definition List_forward_traversal :: "'a SNode heap \<Rightarrow> Container \<Rightarrow> (error + 'a list) option" where
  "List_forward_traversal h l =
     (case List_end h l of
        Inl e \<Rightarrow> Some (Inl e)
      | Inr stop \<Rightarrow> traverse (List_deref h) (List_incr h) (List_begin l) stop [])"

section \<open>Example states\<close>

text \<open>
  The stores and containers that \<open>push_back(10)\<close>, \<open>push_back(20)\<close>, \<open>push_back(30)\<close> on an
  empty list leave behind (lemmas \<open>DList_example_built\<close> and \<open>List_example_built\<close>).
\<close>

definition DList_example_heap :: "nat DNode heap" where
  "DList_example_heap =
     [Some \<lparr>dvalue = 10, dnext = Some 1, dprevious = None\<rparr>,
      Some \<lparr>dvalue = 20, dnext = Some 2, dprevious = Some 0\<rparr>,
      Some \<lparr>dvalue = 30, dnext = None, dprevious = Some 1\<rparr>]"

definition List_example_heap :: "nat SNode heap" where
  "List_example_heap =
     [Some \<lparr>svalue = 10, snext = Some 1\<rparr>,
      Some \<lparr>svalue = 20, snext = Some 2\<rparr>,
      Some \<lparr>svalue = 30, snext = None\<rparr>]"

definition example_container :: Container where
  "example_container = \<lparr>head_m = Some 0, tail_m = Some 2, size_m = 3\<rparr>"

text \<open>
  A store of three nodes in which the forward chain from node 0 stops after node 1 and
  the backward chain from node 2 stops at once: a walk from the head and a walk from
  the tail reach different places in it, which tells the two loops of \<open>operator[]\<close> apart.
\<close>

definition DList_cut_heap :: "nat DNode heap" where
  "DList_cut_heap =
     [Some \<lparr>dvalue = 10, dnext = Some 1, dprevious = None\<rparr>,
      Some \<lparr>dvalue = 20, dnext = None, dprevious = Some 0\<rparr>,
      Some \<lparr>dvalue = 30, dnext = None, dprevious = None\<rparr>]"

text \<open>An object store of two containers: the example list and a default-constructed one.\<close>

definition example_objects :: "Container list" where
  "example_objects = [example_container, empty_container]"


section \<open>Lemmas about the store and the representation\<close>

declare DList_walk_next.simps [simp del] DList_walk_previous.simps [simp del]
  DList_delete_all.simps [simp del] to_string.simps [simp del] step_loop.simps [simp del]
  List_walk_next.simps [simp del] List_delete_all.simps [simp del] List_walk_prev.simps [simp del]

lemma ebind_Inl [simp]: "ebind (Inl e) f = Inl e"
  by (simp add: ebind_def)

lemma ebind_Inr [simp]: "ebind (Inr x) f = f x"
  by (simp add: ebind_def)

lemma heap_read_None [simp]: "heap_read h None = Inl NullDeref"
  by (simp add: heap_read_def)

lemma heap_read_Inr_iff: "heap_read h (Some a) = Inr n \<longleftrightarrow> a < length h \<and> h ! a = Some n"
  by (auto simp: heap_read_def split: option.splits)

lemma heap_read_append: "a < length h \<Longrightarrow> heap_read (h @ t) (Some a) = heap_read h (Some a)"
  by (simp add: heap_read_def nth_append)

lemma heap_read_new [simp]: "heap_read (h @ [Some n]) (Some (length h)) = Inr n"
  by (simp add: heap_read_def)

lemma heap_read_update_other:
  "a \<noteq> b \<Longrightarrow> heap_read (h[b := x]) (Some a) = heap_read h (Some a)"
  by (simp add: heap_read_def)

lemma heap_read_update_same:
  "b < length h \<Longrightarrow> heap_read (h[b := x]) (Some b) = (case x of None \<Rightarrow> Inl Dangling | Some n \<Rightarrow> Inr n)"
  by (simp add: heap_read_def)

lemma heap_write_live:
  "heap_read h (Some a) = Inr n \<Longrightarrow> heap_write h (Some a) f = Inr (h[a := Some (f n)])"
  by (auto simp: heap_read_def heap_write_def split: option.splits if_splits)

lemma heap_delete_live:
  "heap_read h (Some a) = Inr n \<Longrightarrow> heap_delete h (Some a) = Inr (h[a := None])"
  by (auto simp: heap_read_def heap_delete_def split: option.splits if_splits)

lemma heap_new_eq [simp]: "heap_new h n = (length h, h @ [Some n])"
  by (simp add: heap_new_def)

lemma nth_ptr_simps:
  "i < length as \<Longrightarrow> nth_ptr as i = Some (as ! i)"
  "length as \<le> i \<Longrightarrow> nth_ptr as i = None"
  by (simp_all add: nth_ptr_def)

lemma DList_repr_iff:
  "DList_repr h l as xs \<longleftrightarrow>
     length xs = length as \<and> distinct as \<and> size_m l = length as \<and>
     head_m l = nth_ptr as 0 \<and> tail_m l = nth_ptr as (length as - 1) \<and>
     (\<forall>i<length as. heap_read h (Some (as ! i)) = Inr (DList_link as xs i))"
  by (auto simp: DList_repr_def list_all_iff)

lemma DList_repr_bound:
  "DList_repr h l as xs \<Longrightarrow> i < length as \<Longrightarrow> as ! i < length h"
  by (auto simp: DList_repr_iff heap_read_Inr_iff)

lemma DList_walk_next_linked:
  assumes "\<forall>j<length as. heap_read h (Some (as ! j)) = Inr (DList_link as xs j)"
  shows "i + k = index \<Longrightarrow> index < length as \<Longrightarrow>
         DList_walk_next h i index (Some (as ! i)) = Inr (Some (as ! index))"
proof (induction k arbitrary: i)
  case 0
  then show ?case by (simp add: DList_walk_next.simps)
next
  case (Suc k)
  then have "heap_read h (Some (as ! i)) = Inr (DList_link as xs i)" "Suc i < length as"
    using assms by auto
  then show ?case
    using Suc.IH [of "Suc i"] Suc.prems
    by (subst DList_walk_next.simps) (simp add: DList_link_def nth_ptr_def)
qed

lemma DList_walk_previous_linked:
  assumes "\<forall>j<length as. heap_read h (Some (as ! j)) = Inr (DList_link as xs j)"
  shows "index + k = i \<Longrightarrow> i < length as \<Longrightarrow>
         DList_walk_previous h i index (Some (as ! i)) = Inr (Some (as ! index))"
proof (induction k arbitrary: i)
  case 0
  then show ?case by (simp add: DList_walk_previous.simps)
next
  case (Suc k)
  then have "heap_read h (Some (as ! i)) = Inr (DList_link as xs i)" "i \<noteq> 0"
    using assms by auto
  then show ?case
    using Suc.IH [of "i - 1"] Suc.prems
    by (subst DList_walk_previous.simps) (simp add: DList_link_def nth_ptr_def)
qed

lemma closer_to_end_iff:
  "index < sz \<Longrightarrow> closer_to_end sz index \<longleftrightarrow> sz - 1 - index < index"
  by (auto simp: closer_to_end_def size_t_sub_def)

lemma DList_node_at_repr:
  assumes "DList_repr h l as xs" "index < length as"
  shows "DList_node_at h l index = Inr (Some (as ! index))"
proof -
  from assms have L: "\<forall>j<length as. heap_read h (Some (as ! j)) = Inr (DList_link as xs j)"
    and sz: "size_m l = length as" and hd: "head_m l = Some (as ! 0)"
    and tl: "tail_m l = Some (as ! (length as - 1))"
    by (auto simp: DList_repr_iff nth_ptr_def)
  show ?thesis
  proof (cases "closer_to_end (size_m l) index")
    case True
    have "DList_walk_previous h (length as - 1) index (Some (as ! (length as - 1))) = Inr (Some (as ! index))"
      using assms(2) by (intro DList_walk_previous_linked [OF L, of index "length as - 1 - index"]) auto
    with True show ?thesis
      using assms(2) by (simp add: DList_node_at_def sz tl size_t_sub_def)
  next
    case False
    have "DList_walk_next h 0 index (Some (as ! 0)) = Inr (Some (as ! index))"
      using assms(2) by (intro DList_walk_next_linked [OF L, of 0 index]) auto
    with False show ?thesis
      by (simp add: DList_node_at_def hd)
  qed
qed

lemma DList_chain_linked:
  assumes "\<forall>j<length as. heap_read h (Some (as ! j)) = Inr (DList_link as xs j)"
  shows "i + k = length as \<Longrightarrow>
         DList_chain h (nth_ptr as i) k = map (\<lambda>j. (as ! j, DList_link as xs j)) [i..<length as]"
proof (induction k arbitrary: i)
  case 0
  then show ?case by simp
next
  case (Suc k)
  then have i: "i < length as" by simp
  then have r: "heap_read h (Some (as ! i)) = Inr (DList_link as xs i)"
    using assms by simp
  have "DList_chain h (nth_ptr as (Suc i)) k = map (\<lambda>j. (as ! j, DList_link as xs j)) [Suc i..<length as]"
    using Suc.prems by (intro Suc.IH) simp
  then show ?case
    using i r by (simp add: nth_ptr_simps upt_conv_Cons DList_link_def)
qed

lemma DList_repr_addrs:
  assumes "DList_repr h l as xs"
  shows "DList_addrs h l = as" and "DList_values h l = xs"
proof -
  from assms have L: "\<forall>j<length as. heap_read h (Some (as ! j)) = Inr (DList_link as xs j)"
    and sz: "size_m l = length as" and hd: "head_m l = nth_ptr as 0" and len: "length xs = length as"
    by (auto simp: DList_repr_iff)
  have c: "DList_chain h (head_m l) (size_m l) = map (\<lambda>j. (as ! j, DList_link as xs j)) [0..<length as]"
    unfolding hd sz by (rule DList_chain_linked [OF L]) simp
  show "DList_addrs h l = as"
    by (simp add: DList_addrs_def c o_def map_nth)
  show "DList_values h l = xs"
    using len by (simp add: DList_values_def c o_def DList_link_def) (metis map_nth)
qed

lemma DList_inv_iff: "DList_inv h l \<longleftrightarrow> (\<exists>as xs. DList_repr h l as xs)"
proof
  assume "DList_inv h l"
  then show "\<exists>as xs. DList_repr h l as xs"
    unfolding DList_inv_def by blast
next
  assume "\<exists>as xs. DList_repr h l as xs"
  then obtain as xs where r: "DList_repr h l as xs" by blast
  then show "DList_inv h l"
    unfolding DList_inv_def by (simp add: DList_repr_addrs [OF r])
qed

subsection \<open>The modifiers of the doubly linked list\<close>

lemma DList_repr_fresh:
  "DList_repr h l as xs \<Longrightarrow> length h \<notin> set as"
  by (auto simp: DList_repr_iff heap_read_Inr_iff in_set_conv_nth)

lemma DList_push_back_repr:
  assumes "DList_repr h l as xs"
  shows "\<exists>h' l'. DList_push_back h l v = Inr (h', l') \<and> DList_repr h' l' (as @ [length h]) (xs @ [v])"
proof (cases "as = []")
  case True
  with assms show ?thesis
    by (simp add: DList_repr_iff DList_push_back_def nth_ptr_def DList_link_def)
next
  case False
  let ?n = "length as"
  let ?t = "as ! (?n - 1)"
  from assms False have sz: "size_m l = ?n" "?n \<noteq> 0" and tl: "tail_m l = Some ?t"
    and len: "length xs = ?n" and d: "distinct as"
    and L: "\<And>i. i < ?n \<Longrightarrow> heap_read h (Some (as ! i)) = Inr (DList_link as xs i)"
    and hd: "head_m l = Some (as ! 0)"
    by (auto simp: DList_repr_iff nth_ptr_def)
  have b: "\<And>i. i < ?n \<Longrightarrow> as ! i < length h"
    using L by (simp add: heap_read_Inr_iff)
  let ?N = "\<lparr>dvalue = v, dnext = None, dprevious = Some ?t\<rparr>"
  let ?h1 = "h @ [Some ?N]"
  let ?h2 = "?h1[?t := Some ((DList_link as xs (?n - 1))\<lparr>dnext := Some (length h)\<rparr>)]"
  have w: "heap_write ?h1 (Some ?t) (\<lambda>n. n\<lparr>dnext := Some (length h)\<rparr>) = Inr ?h2"
    using sz L [of "?n - 1"] b [of "?n - 1"]
    by (intro heap_write_live) (simp add: heap_read_append)
  have eq: "DList_push_back h l v = Inr (?h2, l\<lparr>tail_m := Some (length h), size_m := size_m l + 1\<rparr>)"
    using sz w by (simp add: DList_push_back_def tl)
  have "heap_read ?h2 (Some ((as @ [length h]) ! i)) = Inr (DList_link (as @ [length h]) (xs @ [v]) i)"
    if lt: "i < Suc ?n" for i
  proof -
    consider "i < ?n - 1" | "i = ?n - 1" | "i = ?n" using lt by linarith
    then show ?thesis
    proof cases
      case 1
      then have i: "i < ?n" "Suc i < ?n" by linarith+
      then have "as ! i \<noteq> ?t" using d by (simp add: nth_eq_iff_index_eq)
      then show ?thesis
        using i L [OF i(1)] b [OF i(1)] len
        by (auto simp: heap_read_update_other heap_read_append nth_append DList_link_def nth_ptr_def)
    next
      case 2
      then have i: "i < ?n" "\<not> Suc i < ?n" using sz by linarith+
      show ?thesis
        using 2 i L [OF i(1)] b [OF i(1)] len
        by (auto simp: heap_read_update_same nth_append DList_link_def nth_ptr_def)
    next
      case 3
      have "length h \<noteq> ?t" using b [of "?n - 1"] sz by simp
      then show ?thesis
        using 3 sz len
        by (auto simp: heap_read_update_other nth_append DList_link_def nth_ptr_def)
    qed
  qed
  then have "DList_repr ?h2 (l\<lparr>tail_m := Some (length h), size_m := size_m l + 1\<rparr>) (as @ [length h]) (xs @ [v])"
    using sz len d hd DList_repr_fresh [OF assms]
    by (simp add: DList_repr_iff nth_ptr_def nth_append)
  with eq show ?thesis by blast
qed

lemma DList_reprD:
  assumes "DList_repr h l as xs" "i < length as"
  shows "heap_read h (Some (as ! i)) = Inr (DList_link as xs i)" and "as ! i < length h"
  using assms by (auto simp: DList_repr_iff heap_read_Inr_iff)

lemma DList_repr_nth_eq:
  "DList_repr h l as xs \<Longrightarrow> i < length as \<Longrightarrow> j < length as \<Longrightarrow> as ! i = as ! j \<longleftrightarrow> i = j"
  by (simp add: DList_repr_iff nth_eq_iff_index_eq)

lemma DList_repr_fields:
  assumes "DList_repr h l as xs"
  shows "size_m l = length as" "length xs = length as" "distinct as"
    "head_m l = nth_ptr as 0" "tail_m l = nth_ptr as (length as - 1)"
  using assms by (auto simp: DList_repr_iff)

lemma DList_repr_empty: "DList_repr h \<lparr>head_m = None, tail_m = None, size_m = 0\<rparr> [] []"
  by (simp add: DList_repr_iff nth_ptr_def)

lemma DList_push_front_repr:
  assumes r: "DList_repr h l as xs"
  shows "\<exists>h' l'. DList_push_front h l v = Inr (h', l') \<and> DList_repr h' l' (length h # as) (v # xs)"
proof (cases "as = []")
  case True
  with assms show ?thesis
    by (simp add: DList_repr_iff DList_push_front_def nth_ptr_def DList_link_def)
next
  case False
  let ?n = "length as"
  note f = DList_repr_fields [OF r]
  from False have n: "0 < ?n" by simp
  have hd: "head_m l = Some (as ! 0)" using f(4) n by (simp add: nth_ptr_def)
  let ?N = "\<lparr>dvalue = v, dnext = Some (as ! 0), dprevious = None\<rparr>"
  let ?h1 = "h @ [Some ?N]"
  let ?h2 = "?h1[as ! 0 := Some ((DList_link as xs 0)\<lparr>dprevious := Some (length h)\<rparr>)]"
  let ?l' = "l\<lparr>head_m := Some (length h), size_m := size_m l + 1\<rparr>"
  have w: "heap_write ?h1 (Some (as ! 0)) (\<lambda>n. n\<lparr>dprevious := Some (length h)\<rparr>) = Inr ?h2"
    using DList_reprD [OF r n]
    by (intro heap_write_live) (simp add: heap_read_append)
  have eq: "DList_push_front h l v = Inr (?h2, ?l')"
    using f(1) n w by (simp add: DList_push_front_def hd)
  have "heap_read ?h2 (Some ((length h # as) ! i)) = Inr (DList_link (length h # as) (v # xs) i)"
    if lt: "i < Suc ?n" for i
  proof -
    consider "i = 0" | "i = 1" | "2 \<le> i" by linarith
    then show ?thesis
    proof cases
      case 1
      have "length h \<noteq> as ! 0" using DList_reprD(2) [OF r n] by simp
      then show ?thesis
        using 1 n by (auto simp: heap_read_update_other DList_link_def nth_ptr_def)
    next
      case 2
      then show ?thesis
        using n DList_reprD [OF r n] f(2)
        by (auto simp: heap_read_update_same DList_link_def nth_ptr_def)
    next
      case 3
      then have i: "i - 1 < ?n" "0 < i - 1" using lt by linarith+
      then have "as ! (i - 1) \<noteq> as ! 0" using DList_repr_nth_eq [OF r i(1) n] by simp
      then show ?thesis
        using 3 i DList_reprD [OF r i(1)] f(2)
        by (auto simp: heap_read_update_other heap_read_append DList_link_def nth_ptr_def nth_Cons')
    qed
  qed
  then have "DList_repr ?h2 ?l' (length h # as) (v # xs)"
    using f n DList_repr_fresh [OF r]
    by (simp add: DList_repr_iff nth_ptr_def)
  with eq show ?thesis by blast
qed

lemma DList_pop_back_repr:
  assumes r: "DList_repr h l as xs"
  shows "\<exists>h' l'. DList_pop_back h l = Inr (h', l') \<and> DList_repr h' l' (butlast as) (butlast xs)"
proof -
  let ?n = "length as"
  note f = DList_repr_fields [OF r]
  consider "?n = 0" | "?n = 1" | "2 \<le> ?n" by linarith
  then show ?thesis
  proof cases
    case 1
    then show ?thesis using r f by (simp add: DList_pop_back_def)
  next
    case 2
    then have t: "tail_m l = Some (as ! 0)" using f(5) by (simp add: nth_ptr_def)
    have "heap_delete h (Some (as ! 0)) = Inr (h[as ! 0 := None])"
      using DList_reprD(1) [OF r, of 0] 2 by (intro heap_delete_live) simp
    then show ?thesis
      using 2 f by (cases as; cases xs) (auto simp: DList_pop_back_def t DList_repr_iff nth_ptr_def)
  next
    case 3
    let ?t = "as ! (?n - 1)" and ?p = "as ! (?n - 2)"
    have i: "?n - 1 < ?n" "?n - 2 < ?n" "?n - 2 \<noteq> ?n - 1" using 3 by linarith+
    have t: "tail_m l = Some ?t" using f(5) i by (simp add: nth_ptr_def)
    have ne: "?p \<noteq> ?t" using DList_repr_nth_eq [OF r i(2) i(1)] i(3) by simp
    let ?h1 = "h[?p := Some ((DList_link as xs (?n - 2))\<lparr>dnext := None\<rparr>)]"
    let ?h2 = "?h1[?t := None]"
    let ?l' = "l\<lparr>tail_m := Some ?p, size_m := size_m l - 1\<rparr>"
    have rt: "heap_read h (Some ?t) = Inr (DList_link as xs (?n - 1))"
      by (rule DList_reprD [OF r i(1)])
    have pt: "dprevious (DList_link as xs (?n - 1)) = Some ?p"
      using 3 by (auto simp: DList_link_def intro!: arg_cong [where f = "nth as"])
    have w: "heap_write h (Some ?p) (\<lambda>n. n\<lparr>dnext := None\<rparr>) = Inr ?h1"
      by (intro heap_write_live DList_reprD [OF r i(2)])
    have dl: "heap_delete ?h1 (Some ?t) = Inr ?h2"
      using ne rt by (intro heap_delete_live [where n = "DList_link as xs (?n - 1)"])
        (simp add: heap_read_update_other)
    have nz: "as \<noteq> []" "?n \<noteq> Suc 0" using 3 by auto
    have eq: "DList_pop_back h l = Inr (?h2, ?l')"
      using nz f(1) rt pt w dl by (simp add: DList_pop_back_def t)
    have "heap_read ?h2 (Some (butlast as ! i)) = Inr (DList_link (butlast as) (butlast xs) i)"
      if lt: "i < ?n - 1" for i
    proof -
      have ii: "i < ?n" using lt by linarith
      have net: "as ! i \<noteq> ?t" using DList_repr_nth_eq [OF r ii i(1)] lt by simp
      consider "i < ?n - 2" | "i = ?n - 2" using lt by linarith
      then show ?thesis
      proof cases
        case 1
        then have "as ! i \<noteq> ?p" using DList_repr_nth_eq [OF r ii i(2)] by simp
        then show ?thesis
          using 1 lt net DList_reprD [OF r ii] f(2)
          by (auto simp: heap_read_update_other DList_link_def nth_ptr_def nth_butlast)
      next
        case 2
        then show ?thesis
          using lt net DList_reprD [OF r ii] f(2)
          by (auto simp: heap_read_update_other heap_read_update_same DList_link_def nth_ptr_def nth_butlast)
      qed
    qed
    then have "DList_repr ?h2 ?l' (butlast as) (butlast xs)"
      using f 3 by (auto simp: DList_repr_iff nth_ptr_def nth_butlast distinct_butlast
          intro!: arg_cong [where f = "nth as"])
    with eq show ?thesis by blast
  qed
qed

lemma DList_pop_front_repr:
  assumes r: "DList_repr h l as xs"
  shows "\<exists>h' l'. DList_pop_front h l = Inr (h', l') \<and> DList_repr h' l' (tl as) (tl xs)"
proof -
  let ?n = "length as"
  note f = DList_repr_fields [OF r]
  consider "?n = 0" | "?n = 1" | "2 \<le> ?n" by linarith
  then show ?thesis
  proof cases
    case 1
    then show ?thesis using r f by (simp add: DList_pop_front_def)
  next
    case 2
    then have t: "head_m l = Some (as ! 0)" using f(4) by (simp add: nth_ptr_def)
    have "heap_delete h (Some (as ! 0)) = Inr (h[as ! 0 := None])"
      using DList_reprD(1) [OF r, of 0] 2 by (intro heap_delete_live) simp
    then show ?thesis
      using 2 f by (cases as; cases xs) (auto simp: DList_pop_front_def t DList_repr_iff nth_ptr_def)
  next
    case 3
    let ?t = "as ! 0" and ?p = "as ! 1"
    have i: "0 < ?n" "1 < ?n" using 3 by linarith+
    have t: "head_m l = Some ?t" using f(4) i by (simp add: nth_ptr_def)
    have ne: "?p \<noteq> ?t" using DList_repr_nth_eq [OF r i(2) i(1)] by simp
    let ?h1 = "h[?p := Some ((DList_link as xs 1)\<lparr>dprevious := None\<rparr>)]"
    let ?h2 = "?h1[?t := None]"
    let ?l' = "l\<lparr>head_m := Some ?p, size_m := size_m l - 1\<rparr>"
    have rt: "heap_read h (Some ?t) = Inr (DList_link as xs 0)"
      by (rule DList_reprD [OF r i(1)])
    have pt: "dnext (DList_link as xs 0) = Some ?p"
      using 3 by (auto simp: DList_link_def nth_ptr_def)
    have w: "heap_write h (Some ?p) (\<lambda>n. n\<lparr>dprevious := None\<rparr>) = Inr ?h1"
      by (intro heap_write_live DList_reprD [OF r i(2)])
    have dl: "heap_delete ?h1 (Some ?t) = Inr ?h2"
      using ne rt by (intro heap_delete_live [where n = "DList_link as xs 0"])
        (simp add: heap_read_update_other)
    have nz: "as \<noteq> []" "?n \<noteq> Suc 0" using 3 by auto
    have eq: "DList_pop_front h l = Inr (?h2, ?l')"
      using nz f(1) rt pt w dl by (simp add: DList_pop_front_def t)
    have "heap_read ?h2 (Some (tl as ! i)) = Inr (DList_link (tl as) (tl xs) i)"
      if lt: "i < ?n - 1" for i
    proof -
      have ii: "Suc i < ?n" using lt by linarith
      have net: "as ! Suc i \<noteq> ?t" using DList_repr_nth_eq [OF r ii i(1)] by simp
      consider "i = 0" | "0 < i" by linarith
      then show ?thesis
      proof cases
        case 1
        then show ?thesis
          using lt net DList_reprD [OF r ii] f(2) nz
          by (auto simp: heap_read_update_other heap_read_update_same DList_link_def nth_ptr_def nth_tl)
      next
        case 2
        then have "as ! Suc i \<noteq> ?p" using DList_repr_nth_eq [OF r ii i(2)] by simp
        then show ?thesis
          using 2 lt net DList_reprD [OF r ii] f(2) nz
          by (auto simp: heap_read_update_other DList_link_def nth_ptr_def nth_tl)
      qed
    qed
    then have "DList_repr ?h2 ?l' (tl as) (tl xs)"
      using f 3 nz by (auto simp: DList_repr_iff nth_ptr_def nth_tl distinct_tl
          intro!: arg_cong [where f = "nth as"])
    with eq show ?thesis by blast
  qed
qed

lemma DList_repr_append_heap:
  assumes "DList_repr h l as xs"
  shows "DList_repr (h @ t) l as xs"
  using assms by (auto simp: DList_repr_iff heap_read_Inr_iff nth_append)

lemma DList_insert_middle_repr:
  assumes r: "DList_repr h l as xs" and k: "0 < k" "k < length as"
  shows "\<exists>h' l'. DList_insert h l k v = Inr (h', l') \<and>
           DList_repr h' l' (take k as @ length h # drop k as) (take k xs @ v # drop k xs)"
proof -
  let ?n = "length as"
  let ?a = "length h"
  let ?c = "as ! k" and ?p = "as ! (k - 1)"
  let ?as' = "take k as @ ?a # drop k as" and ?xs' = "take k xs @ v # drop k xs"
  note f = DList_repr_fields [OF r]
  have i: "k - 1 < ?n" "k - 1 \<noteq> k" using k by linarith+
  let ?N0 = "\<lparr>dvalue = v, dnext = None, dprevious = None\<rparr>"
  let ?h1 = "h @ [Some ?N0]"
  have r1: "DList_repr ?h1 l as xs" by (rule DList_repr_append_heap [OF r])
  have at: "DList_node_at ?h1 l k = Inr (Some ?c)"
    by (rule DList_node_at_repr [OF r1 k(2)])
  have rc: "heap_read ?h1 (Some ?c) = Inr (DList_link as xs k)"
    by (rule DList_reprD [OF r1 k(2)])
  have pc: "dprevious (DList_link as xs k) = Some ?p"
    using k by (simp add: DList_link_def)
  have ne: "?p \<noteq> ?c" using DList_repr_nth_eq [OF r i(1) k(2)] i(2) by simp
  have bc: "?c < ?a" "?p < ?a" using DList_reprD(2) [OF r k(2)] DList_reprD(2) [OF r i(1)] by simp_all
  let ?h2 = "?h1[?p := Some ((DList_link as xs (k - 1))\<lparr>dnext := Some ?a\<rparr>)]"
  have w1: "heap_write ?h1 (dprevious (DList_link as xs k)) (\<lambda>n. n\<lparr>dnext := Some ?a\<rparr>) = Inr ?h2"
    unfolding pc by (intro heap_write_live DList_reprD [OF r1 i(1)])
  have rc2: "heap_read ?h2 (Some ?c) = Inr (DList_link as xs k)"
    using ne rc by (simp add: heap_read_update_other)
  have ra: "heap_read ?h2 (Some ?a) = Inr ?N0"
    using bc by (simp add: heap_read_update_other)
  let ?h3 = "?h2[?a := Some (?N0\<lparr>dprevious := Some ?p\<rparr>)]"
  have w2: "heap_write ?h2 (Some ?a) (\<lambda>n. n\<lparr>dprevious := dprevious (DList_link as xs k)\<rparr>) = Inr ?h3"
    unfolding pc by (intro heap_write_live ra)
  let ?N = "\<lparr>dvalue = v, dnext = Some ?c, dprevious = Some ?p\<rparr>"
  let ?h4 = "?h3[?a := Some ?N]"
  have w3: "heap_write ?h3 (Some ?a) (\<lambda>n. n\<lparr>dnext := Some ?c\<rparr>) = Inr ?h4"
    by (simp add: heap_write_def)
  let ?h5 = "?h4[?c := Some ((DList_link as xs k)\<lparr>dprevious := Some ?a\<rparr>)]"
  have w4: "heap_write ?h4 (Some ?c) (\<lambda>n. n\<lparr>dprevious := Some ?a\<rparr>) = Inr ?h5"
    using ne bc rc2 by (intro heap_write_live) (simp add: heap_read_update_other)
  let ?l' = "l\<lparr>size_m := size_m l + 1\<rparr>"
  have eq: "DList_insert h l k v = Inr (?h5, ?l')"
    using k f(1) at rc w1 rc2 w2 w3 w4
    by (simp add: DList_insert_def)
  have "heap_read ?h5 (Some (?as' ! i)) = Inr (DList_link ?as' ?xs' i)"
    if lt: "i < Suc ?n" for i
  proof -
    consider "i < k - 1" | "i = k - 1" | "i = k" | "i = Suc k" | "Suc k < i" by linarith
    then show ?thesis
    proof cases
      case 1
      then have ii: "i < ?n" "i < k" "Suc i < k" using k by linarith+
      have "as ! i \<noteq> ?c" "as ! i \<noteq> ?p" "as ! i \<noteq> ?a"
        using DList_repr_nth_eq [OF r ii(1) k(2)] DList_repr_nth_eq [OF r ii(1) i(1)] 1
          DList_reprD(2) [OF r ii(1)] by simp_all
      then show ?thesis
        using ii k DList_reprD [OF r ii(1)] f(2)
        by (auto simp: heap_read_update_other heap_read_append DList_link_def nth_ptr_def nth_append)
    next
      case 2
      then have ii: "i < ?n" "i < k" "Suc i = k" using k by linarith+
      have "as ! i \<noteq> ?c" "as ! i \<noteq> ?a" "as ! i = ?p"
        using DList_repr_nth_eq [OF r ii(1) k(2)] 2 DList_reprD(2) [OF r ii(1)] ii by simp_all
      then show ?thesis
        using ii k DList_reprD [OF r ii(1)] f(2) 2
        by (auto simp: heap_read_update_other heap_read_update_same heap_read_append
            DList_link_def nth_ptr_def nth_append)
    next
      case 3
      have "?a \<noteq> ?c" using bc by simp
      then show ?thesis
        using 3 k f(2) bc
        by (auto simp: heap_read_update_other heap_read_update_same DList_link_def nth_ptr_def nth_append)
    next
      case 4
      then show ?thesis
        using k f(2) bc DList_reprD [OF r k(2)]
        by (auto simp: heap_read_update_same DList_link_def nth_ptr_def nth_append)
    next
      case 5
      then have ii: "i - 1 < ?n" "k < i - 1" using lt by linarith+
      have "as ! (i - 1) \<noteq> ?c" "as ! (i - 1) \<noteq> ?p" "as ! (i - 1) \<noteq> ?a"
        using DList_repr_nth_eq [OF r ii(1) k(2)] DList_repr_nth_eq [OF r ii(1) i(1)] ii
          DList_reprD(2) [OF r ii(1)] by simp_all
      moreover have "?as' ! i = as ! (i - 1)" "?as' ! (i - 1) = as ! (i - 2)" "?xs' ! i = xs ! (i - 1)"
        "nth_ptr ?as' (Suc i) = nth_ptr as i"
        using 5 k lt f(2) by (auto simp: nth_append nth_Cons' nth_ptr_def min_def intro!: arg_cong [where f = "nth as"] arg_cong [where f = "nth xs"])
      ultimately show ?thesis
        using 5 ii DList_reprD [OF r ii(1)]
        by (simp add: heap_read_update_other heap_read_append DList_link_def)
          (auto simp: numeral_2_eq_2)
    qed
  qed
  moreover have "distinct ?as'"
    using f(3) DList_repr_fresh [OF r] distinct_take [of as k] distinct_drop [of as k]
      set_take_disj_set_drop_if_distinct [of as k k]
    by (auto dest: in_set_takeD in_set_dropD)
  ultimately have "DList_repr ?h5 ?l' ?as' ?xs'"
    using f k by (auto simp: DList_repr_iff nth_ptr_def nth_append min_def intro!: arg_cong [where f = "nth as"])
  with eq show ?thesis by blast
qed

lemma DList_remove_middle_repr:
  assumes r: "DList_repr h l as xs" and k: "0 < k" "Suc k < length as"
  shows "\<exists>h' l'. DList_remove h l k = Inr (h', l') \<and>
           DList_repr h' l' (take k as @ drop (Suc k) as) (take k xs @ drop (Suc k) xs)"
proof -
  let ?n = "length as"
  let ?c = "as ! k" and ?p = "as ! (k - 1)" and ?q = "as ! Suc k"
  let ?as' = "take k as @ drop (Suc k) as" and ?xs' = "take k xs @ drop (Suc k) xs"
  note f = DList_repr_fields [OF r]
  have i: "k - 1 < ?n" "k - 1 \<noteq> k" "k < ?n" "k - 1 \<noteq> Suc k" "k \<noteq> Suc k" using k by linarith+
  have at: "DList_node_at h l k = Inr (Some ?c)"
    by (rule DList_node_at_repr [OF r i(3)])
  have rc: "heap_read h (Some ?c) = Inr (DList_link as xs k)"
    by (rule DList_reprD [OF r i(3)])
  have pc: "dprevious (DList_link as xs k) = Some ?p" "dnext (DList_link as xs k) = Some ?q"
    using k by (simp_all add: DList_link_def nth_ptr_def)
  have ne: "?p \<noteq> ?c" "?p \<noteq> ?q" "?c \<noteq> ?q"
    using DList_repr_nth_eq [OF r i(1) i(3)] DList_repr_nth_eq [OF r i(1) k(2)]
      DList_repr_nth_eq [OF r i(3) k(2)] i by simp_all
  let ?h1 = "h[?p := Some ((DList_link as xs (k - 1))\<lparr>dnext := Some ?q\<rparr>)]"
  have w1: "heap_write h (dprevious (DList_link as xs k)) (\<lambda>n. n\<lparr>dnext := dnext (DList_link as xs k)\<rparr>) = Inr ?h1"
    unfolding pc by (intro heap_write_live DList_reprD [OF r i(1)])
  have rc1: "heap_read ?h1 (Some ?c) = Inr (DList_link as xs k)"
    using ne rc by (simp add: heap_read_update_other)
  let ?h2 = "?h1[?q := Some ((DList_link as xs (Suc k))\<lparr>dprevious := Some ?p\<rparr>)]"
  have w2: "heap_write ?h1 (dnext (DList_link as xs k)) (\<lambda>n. n\<lparr>dprevious := dprevious (DList_link as xs k)\<rparr>) = Inr ?h2"
    unfolding pc using ne DList_reprD [OF r k(2)]
    by (intro heap_write_live) (simp add: heap_read_update_other)
  let ?h3 = "?h2[?c := None]"
  have dl: "heap_delete ?h2 (Some ?c) = Inr ?h3"
    using ne rc by (intro heap_delete_live [where n = "DList_link as xs k"])
      (simp add: heap_read_update_other)
  let ?l' = "l\<lparr>size_m := size_m l - 1\<rparr>"
  have "k \<noteq> ?n - Suc 0" using k by linarith
  then have eq: "DList_remove h l k = Inr (?h3, ?l')"
    using k f(1) at rc w1 rc1 w2 dl
    by (simp add: DList_remove_def)
  have "heap_read ?h3 (Some (?as' ! i)) = Inr (DList_link ?as' ?xs' i)"
    if lt: "i < ?n - 1" for i
  proof -
    consider "i < k - 1" | "i = k - 1" | "i = k" | "k < i" by linarith
    then show ?thesis
    proof cases
      case 1
      then have ii: "i < ?n" "i < k" "Suc i < k" using k by linarith+
      have "as ! i \<noteq> ?c" "as ! i \<noteq> ?p" "as ! i \<noteq> ?q"
        using DList_repr_nth_eq [OF r ii(1) i(3)] DList_repr_nth_eq [OF r ii(1) i(1)] 1
          DList_repr_nth_eq [OF r ii(1) k(2)] by simp_all
      then show ?thesis
        using ii k DList_reprD [OF r ii(1)] f(2)
        by (auto simp: heap_read_update_other DList_link_def nth_ptr_def nth_append)
    next
      case 2
      then have ii: "i < ?n" "i < k" "Suc i = k" using k by linarith+
      have "as ! i = ?p" using 2 by simp
      then show ?thesis
        using ii k DList_reprD [OF r ii(1)] f(2) 2 ne
        by (auto simp: heap_read_update_other heap_read_update_same
            DList_link_def nth_ptr_def nth_append min_def)
    next
      case 3
      then show ?thesis
        using k f(2) ne DList_reprD [OF r k(2)]
        by (auto simp: heap_read_update_other heap_read_update_same DList_link_def nth_ptr_def
            nth_append min_def)
    next
      case 4
      then have ii: "Suc i < ?n" "Suc k < Suc i" using lt by linarith+
      have "as ! Suc i \<noteq> ?c" "as ! Suc i \<noteq> ?p" "as ! Suc i \<noteq> ?q"
        using DList_repr_nth_eq [OF r ii(1) i(3)] DList_repr_nth_eq [OF r ii(1) i(1)] ii k
          DList_repr_nth_eq [OF r ii(1) k(2)] by simp_all
      moreover have "?as' ! i = as ! Suc i" "?as' ! (i - 1) = as ! i" "?xs' ! i = xs ! Suc i"
        "nth_ptr ?as' (Suc i) = nth_ptr as (Suc (Suc i))"
        using 4 k lt f(2) by (auto simp: nth_append nth_ptr_def min_def
            intro!: arg_cong [where f = "nth as"] arg_cong [where f = "nth xs"])
      ultimately show ?thesis
        using 4 ii DList_reprD [OF r ii(1)]
        by (simp add: heap_read_update_other DList_link_def)
    qed
  qed
  moreover have "distinct ?as'"
    using f(3) distinct_take [of as k] distinct_drop [of as "Suc k"]
      set_take_disj_set_drop_if_distinct [of as k "Suc k"]
    by auto
  ultimately have "DList_repr ?h3 ?l' ?as' ?xs'"
    using f k by (auto simp: DList_repr_iff nth_ptr_def nth_append min_def
        intro!: arg_cong [where f = "nth as"])
  with eq show ?thesis by blast
qed

lemma DList_insert_repr:
  assumes r: "DList_repr h l as xs" and k: "k \<le> length as"
  shows "\<exists>h' l'. DList_insert h l k v = Inr (h', l') \<and>
           DList_repr h' l' (take k as @ length h # drop k as) (take k xs @ v # drop k xs)"
proof -
  note f = DList_repr_fields [OF r]
  consider "k = 0" | "k = length as" "k \<noteq> 0" | "0 < k" "k < length as" using k by linarith
  then show ?thesis
  proof cases
    case 1
    then show ?thesis
      using DList_push_front_repr [OF r, of v] by (simp add: DList_insert_def)
  next
    case 2
    then show ?thesis
      using DList_push_back_repr [OF r, of v] f by (simp add: DList_insert_def)
  next
    case 3
    then show ?thesis by (rule DList_insert_middle_repr [OF r])
  qed
qed

lemma DList_remove_repr:
  assumes r: "DList_repr h l as xs" and k: "k < length as"
  shows "\<exists>h' l'. DList_remove h l k = Inr (h', l') \<and>
           DList_repr h' l' (take k as @ drop (Suc k) as) (take k xs @ drop (Suc k) xs)"
proof -
  note f = DList_repr_fields [OF r]
  consider "k = 0" | "k = length as - 1" "k \<noteq> 0" | "0 < k" "Suc k < length as" using k by linarith
  then show ?thesis
  proof cases
    case 1
    then show ?thesis
      using DList_pop_front_repr [OF r] k f by (simp add: DList_remove_def drop_Suc)
  next
    case 2
    then show ?thesis
      using DList_pop_back_repr [OF r] k f by (simp add: DList_remove_def butlast_conv_take)
  next
    case 3
    then show ?thesis by (rule DList_remove_middle_repr [OF r])
  qed
qed

lemma DList_delete_all_linked:
  assumes d: "distinct as"
  shows "i + k = length as \<Longrightarrow>
         (\<forall>j<length as. i \<le> j \<longrightarrow> heap_read h (Some (as ! j)) = Inr (DList_link as xs j)) \<Longrightarrow>
         \<exists>h'. DList_delete_all h i (length as) (nth_ptr as i) = Inr h' \<and> length h' = length h \<and>
              (\<forall>a. a \<notin> set as \<longrightarrow> heap_read h' (Some a) = heap_read h (Some a))"
proof (induction k arbitrary: i h)
  case 0
  then show ?case by (simp add: DList_delete_all.simps)
next
  case (Suc k)
  then have i: "i < length as" by simp
  have rd: "heap_read h (Some (as ! i)) = Inr (DList_link as xs i)"
    using Suc.prems(2) i by simp
  let ?h1 = "h[as ! i := None]"
  have dl: "heap_delete h (Some (as ! i)) = Inr ?h1"
    by (rule heap_delete_live [OF rd])
  have "\<forall>j<length as. Suc i \<le> j \<longrightarrow> heap_read ?h1 (Some (as ! j)) = Inr (DList_link as xs j)"
  proof (intro allI impI)
    fix j assume j: "j < length as" "Suc i \<le> j"
    then have "as ! j \<noteq> as ! i" using d i by (simp add: nth_eq_iff_index_eq)
    then show "heap_read ?h1 (Some (as ! j)) = Inr (DList_link as xs j)"
      using Suc.prems(2) j by (simp add: heap_read_update_other)
  qed
  from Suc.IH [OF _ this] Suc.prems(1)
  obtain h' where h': "DList_delete_all ?h1 (Suc i) (length as) (nth_ptr as (Suc i)) = Inr h'"
    "length h' = length h" "\<forall>a. a \<notin> set as \<longrightarrow> heap_read h' (Some a) = heap_read ?h1 (Some a)"
    by auto
  have "DList_delete_all h i (length as) (nth_ptr as i) = Inr h'"
    using i rd dl h'(1)
    by (subst DList_delete_all.simps) (simp add: nth_ptr_simps DList_link_def)
  moreover have "\<forall>a. a \<notin> set as \<longrightarrow> heap_read h' (Some a) = heap_read h (Some a)"
  proof (intro allI impI)
    fix a assume a: "a \<notin> set as"
    then have "a \<noteq> as ! i" using i by auto
    then show "heap_read h' (Some a) = heap_read h (Some a)"
      using h'(3) a by (simp add: heap_read_update_other)
  qed
  ultimately show ?case using h'(2) by simp
qed

lemma DList_clear_repr:
  assumes r: "DList_repr h l as xs"
  shows "\<exists>h' l'. DList_clear h l = Inr (h', l') \<and> DList_repr h' l' [] [] \<and> length h' = length h \<and>
           (\<forall>a. a \<notin> set as \<longrightarrow> heap_read h' (Some a) = heap_read h (Some a))"
proof (cases "as = []")
  case True
  then show ?thesis using r by (simp add: DList_clear_def DList_repr_iff)
next
  case False
  note f = DList_repr_fields [OF r]
  have "\<forall>j<length as. 0 \<le> j \<longrightarrow> heap_read h (Some (as ! j)) = Inr (DList_link as xs j)"
    using DList_reprD(1) [OF r] by simp
  from DList_delete_all_linked [OF f(3) _ this, of "length as"]
  obtain h' where "DList_delete_all h 0 (length as) (nth_ptr as 0) = Inr h'" "length h' = length h"
    "\<forall>a. a \<notin> set as \<longrightarrow> heap_read h' (Some a) = heap_read h (Some a)"
    by auto
  then show ?thesis
    using False f by (simp add: DList_clear_def DList_repr_iff nth_ptr_def)
qed

subsection \<open>The singly linked list\<close>

lemma List_repr_iff:
  "List_repr h l as xs \<longleftrightarrow>
     length xs = length as \<and> distinct as \<and> size_m l = length as \<and>
     head_m l = nth_ptr as 0 \<and> tail_m l = nth_ptr as (length as - 1) \<and>
     (\<forall>i<length as. heap_read h (Some (as ! i)) = Inr (List_link as xs i))"
  by (auto simp: List_repr_def list_all_iff)

lemma List_reprD:
  assumes "List_repr h l as xs" "i < length as"
  shows "heap_read h (Some (as ! i)) = Inr (List_link as xs i)" and "as ! i < length h"
  using assms by (auto simp: List_repr_iff heap_read_Inr_iff)

lemma List_repr_nth_eq:
  "List_repr h l as xs \<Longrightarrow> i < length as \<Longrightarrow> j < length as \<Longrightarrow> as ! i = as ! j \<longleftrightarrow> i = j"
  by (simp add: List_repr_iff nth_eq_iff_index_eq)

lemma List_repr_fields:
  assumes "List_repr h l as xs"
  shows "size_m l = length as" "length xs = length as" "distinct as"
    "head_m l = nth_ptr as 0" "tail_m l = nth_ptr as (length as - 1)"
  using assms by (auto simp: List_repr_iff)

lemma List_repr_fresh: "List_repr h l as xs \<Longrightarrow> length h \<notin> set as"
  by (auto simp: List_repr_iff heap_read_Inr_iff in_set_conv_nth)

lemma List_repr_append_heap:
  assumes "List_repr h l as xs"
  shows "List_repr (h @ t) l as xs"
  using assms by (auto simp: List_repr_iff heap_read_Inr_iff nth_append)

lemma List_repr_empty: "List_repr h \<lparr>head_m = None, tail_m = None, size_m = 0\<rparr> [] []"
  by (simp add: List_repr_iff nth_ptr_def)

lemma List_walk_next_linked:
  assumes "\<forall>j<length as. heap_read h (Some (as ! j)) = Inr (List_link as xs j)"
  shows "i + k = index \<Longrightarrow> index < length as \<Longrightarrow>
         List_walk_next h i index (Some (as ! i)) = Inr (Some (as ! index))"
proof (induction k arbitrary: i)
  case 0
  then show ?case by (simp add: List_walk_next.simps)
next
  case (Suc k)
  then have "heap_read h (Some (as ! i)) = Inr (List_link as xs i)" "Suc i < length as"
    using assms by auto
  then show ?case
    using Suc.IH [of "Suc i"] Suc.prems
    by (subst List_walk_next.simps) (simp add: List_link_def nth_ptr_def)
qed

lemma List_walk_prev_linked:
  assumes "\<forall>j<length as. heap_read h (Some (as ! j)) = Inr (List_link as xs j)"
  shows "i + k = index \<Longrightarrow> index < length as \<Longrightarrow> 0 < k \<Longrightarrow>
         List_walk_prev h i index p (Some (as ! i)) = Inr (Some (as ! (index - 1)), Some (as ! index))"
proof (induction k arbitrary: i p)
  case 0
  then show ?case by simp
next
  case (Suc k)
  then have rd: "heap_read h (Some (as ! i)) = Inr (List_link as xs i)" and i: "Suc i < length as"
    using assms by auto
  show ?case
  proof (cases "k = 0")
    case True
    then have "Suc i = index" using Suc.prems by simp
    then show ?thesis
      using rd i
      by (subst List_walk_prev.simps, simp add: List_link_def nth_ptr_def)
        (subst List_walk_prev.simps, auto)
  next
    case False
    then show ?thesis
      using Suc.IH [of "Suc i" "Some (as ! i)"] Suc.prems rd i
      by (subst List_walk_prev.simps) (simp add: List_link_def nth_ptr_def)
  qed
qed

lemma List_chain_linked:
  assumes "\<forall>j<length as. heap_read h (Some (as ! j)) = Inr (List_link as xs j)"
  shows "i + k = length as \<Longrightarrow>
         List_chain h (nth_ptr as i) k = map (\<lambda>j. (as ! j, List_link as xs j)) [i..<length as]"
proof (induction k arbitrary: i)
  case 0
  then show ?case by simp
next
  case (Suc k)
  then have i: "i < length as" by simp
  then have r: "heap_read h (Some (as ! i)) = Inr (List_link as xs i)"
    using assms by simp
  have "List_chain h (nth_ptr as (Suc i)) k = map (\<lambda>j. (as ! j, List_link as xs j)) [Suc i..<length as]"
    using Suc.prems by (intro Suc.IH) simp
  then show ?case
    using i r by (simp add: nth_ptr_simps upt_conv_Cons List_link_def)
qed

lemma List_repr_addrs:
  assumes "List_repr h l as xs"
  shows "List_addrs h l = as" and "List_values h l = xs"
proof -
  from assms have L: "\<forall>j<length as. heap_read h (Some (as ! j)) = Inr (List_link as xs j)"
    and sz: "size_m l = length as" and hd: "head_m l = nth_ptr as 0" and len: "length xs = length as"
    by (auto simp: List_repr_iff)
  have c: "List_chain h (head_m l) (size_m l) = map (\<lambda>j. (as ! j, List_link as xs j)) [0..<length as]"
    unfolding hd sz by (rule List_chain_linked [OF L]) simp
  show "List_addrs h l = as"
    by (simp add: List_addrs_def c o_def map_nth)
  show "List_values h l = xs"
    using len by (simp add: List_values_def c o_def List_link_def) (metis map_nth)
qed

lemma List_inv_iff: "List_inv h l \<longleftrightarrow> (\<exists>as xs. List_repr h l as xs)"
proof
  assume "List_inv h l"
  then show "\<exists>as xs. List_repr h l as xs"
    unfolding List_inv_def by blast
next
  assume "\<exists>as xs. List_repr h l as xs"
  then obtain as xs where r: "List_repr h l as xs" by blast
  then show "List_inv h l"
    unfolding List_inv_def by (simp add: List_repr_addrs [OF r])
qed

lemma List_push_back_repr:
  assumes r: "List_repr h l as xs"
  shows "\<exists>h' l'. List_push_back h l v = Inr (h', l') \<and> List_repr h' l' (as @ [length h]) (xs @ [v])"
proof (cases "as = []")
  case True
  with assms show ?thesis
    by (simp add: List_repr_iff List_push_back_def nth_ptr_def List_link_def)
next
  case False
  let ?n = "length as"
  let ?t = "as ! (?n - 1)"
  note f = List_repr_fields [OF r]
  from False have n: "?n - 1 < ?n" "as \<noteq> []" by simp_all
  have tl: "tail_m l = Some ?t" using f(5) n by (simp add: nth_ptr_def)
  let ?h1 = "h @ [Some \<lparr>svalue = v, snext = None\<rparr>]"
  let ?h2 = "?h1[?t := Some ((List_link as xs (?n - 1))\<lparr>snext := Some (length h)\<rparr>)]"
  let ?l' = "l\<lparr>tail_m := Some (length h), size_m := size_m l + 1\<rparr>"
  have w: "heap_write ?h1 (Some ?t) (\<lambda>n. n\<lparr>snext := Some (length h)\<rparr>) = Inr ?h2"
    using List_reprD [OF r n(1)]
    by (intro heap_write_live) (simp add: heap_read_append)
  have eq: "List_push_back h l v = Inr (?h2, ?l')"
    using f(1) n w by (simp add: List_push_back_def tl)
  have "heap_read ?h2 (Some ((as @ [length h]) ! i)) = Inr (List_link (as @ [length h]) (xs @ [v]) i)"
    if lt: "i < Suc ?n" for i
  proof -
    consider "i < ?n - 1" | "i = ?n - 1" | "i = ?n" using lt by linarith
    then show ?thesis
    proof cases
      case 1
      then have i: "i < ?n" "Suc i < ?n" by linarith+
      then have "as ! i \<noteq> ?t" using List_repr_nth_eq [OF r i(1) n(1)] 1 by simp
      then show ?thesis
        using i List_reprD [OF r i(1)] f(2)
        by (auto simp: heap_read_update_other heap_read_append nth_append List_link_def nth_ptr_def)
    next
      case 2
      then have i: "i < ?n" "\<not> Suc i < ?n" using n by linarith+
      show ?thesis
        using 2 i List_reprD [OF r i(1)] f(2)
        by (auto simp: heap_read_update_same nth_append List_link_def nth_ptr_def)
    next
      case 3
      have "length h \<noteq> ?t" using List_reprD(2) [OF r n(1)] by simp
      then show ?thesis
        using 3 n f(2)
        by (auto simp: heap_read_update_other nth_append List_link_def nth_ptr_def)
    qed
  qed
  then have "List_repr ?h2 ?l' (as @ [length h]) (xs @ [v])"
    using f n List_repr_fresh [OF r]
    by (simp add: List_repr_iff nth_ptr_def nth_append)
  with eq show ?thesis by blast
qed

lemma List_push_front_repr:
  assumes r: "List_repr h l as xs"
  shows "\<exists>h' l'. List_push_front h l v = Inr (h', l') \<and> List_repr h' l' (length h # as) (v # xs)"
proof (cases "as = []")
  case True
  with assms show ?thesis
    by (simp add: List_repr_iff List_push_front_def nth_ptr_def List_link_def)
next
  case False
  let ?n = "length as"
  note f = List_repr_fields [OF r]
  from False have n: "0 < ?n" by simp
  have hd: "head_m l = Some (as ! 0)" using f(4) n by (simp add: nth_ptr_def)
  let ?h1 = "h @ [Some \<lparr>svalue = v, snext = Some (as ! 0)\<rparr>]"
  let ?l' = "l\<lparr>head_m := Some (length h), size_m := size_m l + 1\<rparr>"
  have eq: "List_push_front h l v = Inr (?h1, ?l')"
    using f(1) n by (simp add: List_push_front_def hd)
  have "heap_read ?h1 (Some ((length h # as) ! i)) = Inr (List_link (length h # as) (v # xs) i)"
    if lt: "i < Suc ?n" for i
  proof (cases "i = 0")
    case True
    then show ?thesis using n by (auto simp: List_link_def nth_ptr_def)
  next
    case False
    then have i: "i - 1 < ?n" using lt by linarith
    show ?thesis
      using False i List_reprD [OF r i] f(2)
      by (auto simp: heap_read_append List_link_def nth_ptr_def nth_Cons')
  qed
  then have "List_repr ?h1 ?l' (length h # as) (v # xs)"
    using f n List_repr_fresh [OF r]
    by (simp add: List_repr_iff nth_ptr_def)
  with eq show ?thesis by blast
qed

lemma List_pop_front_repr:
  assumes r: "List_repr h l as xs"
  shows "\<exists>h' l'. List_pop_front h l = Inr (h', l') \<and> List_repr h' l' (tl as) (tl xs)"
proof -
  let ?n = "length as"
  note f = List_repr_fields [OF r]
  consider "?n = 0" | "?n = 1" | "2 \<le> ?n" by linarith
  then show ?thesis
  proof cases
    case 1
    then show ?thesis using r f by (simp add: List_pop_front_def)
  next
    case 2
    then have t: "head_m l = Some (as ! 0)" using f(4) by (simp add: nth_ptr_def)
    have rd: "heap_read h (Some (as ! 0)) = Inr (List_link as xs 0)"
      using List_reprD(1) [OF r, of 0] 2 by simp
    have "heap_delete h (Some (as ! 0)) = Inr (h[as ! 0 := None])"
      by (rule heap_delete_live [OF rd])
    then show ?thesis
      using 2 f rd
      by (cases as; cases xs) (auto simp: List_pop_front_def t List_repr_iff nth_ptr_def List_link_def)
  next
    case 3
    let ?t = "as ! 0" and ?p = "as ! 1"
    have i: "0 < ?n" "1 < ?n" using 3 by linarith+
    have t: "head_m l = Some ?t" using f(4) i by (simp add: nth_ptr_def)
    let ?h2 = "h[?t := None]"
    let ?l' = "l\<lparr>head_m := Some ?p, size_m := size_m l - 1\<rparr>"
    have rt: "heap_read h (Some ?t) = Inr (List_link as xs 0)"
      by (rule List_reprD [OF r i(1)])
    have pt: "snext (List_link as xs 0) = Some ?p"
      using 3 by (auto simp: List_link_def nth_ptr_def)
    have dl: "heap_delete h (Some ?t) = Inr ?h2"
      by (rule heap_delete_live [OF rt])
    have nz: "as \<noteq> []" "?n \<noteq> Suc 0" using 3 by auto
    have eq: "List_pop_front h l = Inr (?h2, ?l')"
      using nz f(1) rt pt dl by (simp add: List_pop_front_def t)
    have "heap_read ?h2 (Some (tl as ! i)) = Inr (List_link (tl as) (tl xs) i)"
      if lt: "i < ?n - 1" for i
    proof -
      have ii: "Suc i < ?n" using lt by linarith
      have net: "as ! Suc i \<noteq> ?t" using List_repr_nth_eq [OF r ii i(1)] by simp
      show ?thesis
        using lt net List_reprD [OF r ii] f(2) nz
        by (auto simp: heap_read_update_other List_link_def nth_ptr_def nth_tl)
    qed
    then have "List_repr ?h2 ?l' (tl as) (tl xs)"
      using f 3 nz by (auto simp: List_repr_iff nth_ptr_def nth_tl distinct_tl
          intro!: arg_cong [where f = "nth as"])
    with eq show ?thesis by blast
  qed
qed

lemma List_find_before_tail_linked:
  assumes L: "\<forall>j<length as. heap_read h (Some (as ! j)) = Inr (List_link as xs j)"
    and d: "distinct as"
  shows "Suc (i + k) = length as - 1 \<Longrightarrow>
         List_find_before_tail h (Some (as ! (length as - 1))) (Some (as ! i))
           = Some (Inr (Some (as ! (length as - 2))))"
proof (induction k arbitrary: i)
  case 0
  then have i: "i < length as" "Suc i = length as - 1" "i = length as - 2" "Suc i < length as"
    by linarith+
  have "heap_read h (Some (as ! i)) = Inr (List_link as xs i)" using L i by simp
  then show ?case
    using i by (subst List_find_before_tail.simps) (simp add: List_link_def nth_ptr_def)
next
  case (Suc k)
  then have i: "i < length as" "Suc i < length as" "Suc i \<noteq> length as - 1" "length as - 1 < length as"
    by linarith+
  then have "as ! Suc i \<noteq> as ! (length as - 1)"
    using d by (simp add: nth_eq_iff_index_eq)
  then show ?case
    using L i Suc.IH [of "Suc i"] Suc.prems
    by (subst List_find_before_tail.simps) (simp add: List_link_def nth_ptr_def)
qed

lemma List_pop_back_repr:
  assumes r: "List_repr h l as xs"
  shows "\<exists>h' l'. List_pop_back h l = Some (Inr (h', l')) \<and> List_repr h' l' (butlast as) (butlast xs)"
proof -
  let ?n = "length as"
  note f = List_repr_fields [OF r]
  consider "?n = 0" | "?n = 1" | "2 \<le> ?n" by linarith
  then show ?thesis
  proof cases
    case 1
    then show ?thesis using r f by (simp add: List_pop_back_def)
  next
    case 2
    then have t: "head_m l = Some (as ! 0)" using f(4) by (simp add: nth_ptr_def)
    have "heap_delete h (Some (as ! 0)) = Inr (h[as ! 0 := None])"
      using List_reprD(1) [OF r, of 0] 2 by (intro heap_delete_live) simp
    then show ?thesis
      using 2 f by (cases as; cases xs) (auto simp: List_pop_back_def t List_repr_iff nth_ptr_def)
  next
    case 3
    let ?t = "as ! (?n - 1)" and ?p = "as ! (?n - 2)"
    have i: "?n - 1 < ?n" "?n - 2 < ?n" "?n - 2 \<noteq> ?n - 1" "0 < ?n" using 3 by linarith+
    have t: "tail_m l = Some ?t" using f(5) i by (simp add: nth_ptr_def)
    have hd: "head_m l = Some (as ! 0)" using f(4) i by (simp add: nth_ptr_def)
    have ne: "?p \<noteq> ?t" using List_repr_nth_eq [OF r i(2) i(1)] i(3) by simp
    have L: "\<forall>j<length as. heap_read h (Some (as ! j)) = Inr (List_link as xs j)"
      using List_reprD(1) [OF r] by simp
    have fd: "List_find_before_tail h (Some ?t) (Some (as ! 0)) = Some (Inr (Some ?p))"
      using 3 by (intro List_find_before_tail_linked [OF L f(3), of 0 "?n - 2"]) linarith
    have rp: "heap_read h (Some ?p) = Inr (List_link as xs (?n - 2))"
      by (rule List_reprD [OF r i(2)])
    have pt: "snext (List_link as xs (?n - 2)) = Some ?t"
      using 3 by (auto simp: List_link_def nth_ptr_def intro!: arg_cong [where f = "nth as"])
    let ?h1 = "h[?t := None]"
    let ?h2 = "?h1[?p := Some ((List_link as xs (?n - 2))\<lparr>snext := None\<rparr>)]"
    let ?l' = "l\<lparr>tail_m := Some ?p, size_m := size_m l - 1\<rparr>"
    have dl: "heap_delete h (Some ?t) = Inr ?h1"
      by (rule heap_delete_live [OF List_reprD(1) [OF r i(1)]])
    have w: "heap_write ?h1 (Some ?p) (\<lambda>n. n\<lparr>snext := None\<rparr>) = Inr ?h2"
      using ne rp by (intro heap_write_live) (simp add: heap_read_update_other)
    have nz: "as \<noteq> []" "?n \<noteq> Suc 0" using 3 by auto
    have eq: "List_pop_back h l = Some (Inr (?h2, ?l'))"
      using nz f(1) fd rp pt w dl by (simp add: List_pop_back_def t hd)
    have "heap_read ?h2 (Some (butlast as ! i)) = Inr (List_link (butlast as) (butlast xs) i)"
      if lt: "i < ?n - 1" for i
    proof -
      have ii: "i < ?n" using lt by linarith
      have net: "as ! i \<noteq> ?t" using List_repr_nth_eq [OF r ii i(1)] lt by simp
      consider "i < ?n - 2" | "i = ?n - 2" using lt by linarith
      then show ?thesis
      proof cases
        case 1
        then have "as ! i \<noteq> ?p" using List_repr_nth_eq [OF r ii i(2)] by simp
        then show ?thesis
          using 1 lt net List_reprD [OF r ii] f(2)
          by (auto simp: heap_read_update_other List_link_def nth_ptr_def nth_butlast)
      next
        case 2
        then show ?thesis
          using lt net List_reprD [OF r ii] f(2)
          by (auto simp: heap_read_update_other heap_read_update_same List_link_def nth_ptr_def nth_butlast)
      qed
    qed
    then have "List_repr ?h2 ?l' (butlast as) (butlast xs)"
      using f 3 by (auto simp: List_repr_iff nth_ptr_def nth_butlast distinct_butlast
          intro!: arg_cong [where f = "nth as"])
    with eq show ?thesis by blast
  qed
qed

lemma List_insert_middle_repr:
  assumes r: "List_repr h l as xs" and k: "0 < k" "k < length as"
  shows "\<exists>h' l'. List_insert h l k v = Inr (h', l') \<and>
           List_repr h' l' (take k as @ length h # drop k as) (take k xs @ v # drop k xs)"
proof -
  let ?n = "length as"
  let ?a = "length h"
  let ?c = "as ! k" and ?p = "as ! (k - 1)"
  let ?as' = "take k as @ ?a # drop k as" and ?xs' = "take k xs @ v # drop k xs"
  note f = List_repr_fields [OF r]
  have i: "k - 1 < ?n" "k - 1 \<noteq> k" "0 < ?n" using k by linarith+
  have hd: "head_m l = Some (as ! 0)" using f(4) i by (simp add: nth_ptr_def)
  let ?N0 = "\<lparr>svalue = v, snext = None\<rparr>"
  let ?h1 = "h @ [Some ?N0]"
  have r1: "List_repr ?h1 l as xs" by (rule List_repr_append_heap [OF r])
  have L1: "\<forall>j<length as. heap_read ?h1 (Some (as ! j)) = Inr (List_link as xs j)"
    using List_reprD(1) [OF r1] by simp
  have at: "List_walk_prev ?h1 0 k None (Some (as ! 0)) = Inr (Some ?p, Some ?c)"
    using k by (intro List_walk_prev_linked [OF L1, of 0 k]) auto
  have bc: "?c < ?a" "?p < ?a" using List_reprD(2) [OF r k(2)] List_reprD(2) [OF r i(1)] by simp_all
  let ?h2 = "?h1[?p := Some ((List_link as xs (k - 1))\<lparr>snext := Some ?a\<rparr>)]"
  have w1: "heap_write ?h1 (Some ?p) (\<lambda>n. n\<lparr>snext := Some ?a\<rparr>) = Inr ?h2"
    by (intro heap_write_live List_reprD [OF r1 i(1)])
  have ra: "heap_read ?h2 (Some ?a) = Inr ?N0"
    using bc by (simp add: heap_read_update_other)
  let ?h3 = "?h2[?a := Some (?N0\<lparr>snext := Some ?c\<rparr>)]"
  have w2: "heap_write ?h2 (Some ?a) (\<lambda>n. n\<lparr>snext := Some ?c\<rparr>) = Inr ?h3"
    by (intro heap_write_live ra)
  let ?l' = "l\<lparr>size_m := size_m l + 1\<rparr>"
  have eq: "List_insert h l k v = Inr (?h3, ?l')"
    using k f(1) at w1 w2
    by (simp add: List_insert_def hd)
  have "heap_read ?h3 (Some (?as' ! i)) = Inr (List_link ?as' ?xs' i)"
    if lt: "i < Suc ?n" for i
  proof -
    consider "i < k - 1" | "i = k - 1" | "i = k" | "k < i" by linarith
    then show ?thesis
    proof cases
      case 1
      then have ii: "i < ?n" "i < k" "Suc i < k" using k by linarith+
      have "as ! i \<noteq> ?p" "as ! i \<noteq> ?a"
        using List_repr_nth_eq [OF r ii(1) i(1)] 1 List_reprD(2) [OF r ii(1)] by simp_all
      then show ?thesis
        using ii k List_reprD [OF r ii(1)] f(2)
        by (auto simp: heap_read_update_other heap_read_append List_link_def nth_ptr_def nth_append)
    next
      case 2
      then have ii: "i < ?n" "i < k" "Suc i = k" using k by linarith+
      have "as ! i \<noteq> ?a" "as ! i = ?p"
        using 2 List_reprD(2) [OF r ii(1)] ii by simp_all
      then show ?thesis
        using ii k List_reprD [OF r ii(1)] f(2) 2
        by (auto simp: heap_read_update_other heap_read_update_same heap_read_append
            List_link_def nth_ptr_def nth_append)
    next
      case 3
      then show ?thesis
        using k f(2) bc
        by (auto simp: heap_read_update_other heap_read_update_same List_link_def nth_ptr_def nth_append)
    next
      case 4
      then have ii: "i - 1 < ?n" "k \<le> i - 1" using lt by linarith+
      have "as ! (i - 1) \<noteq> ?p" "as ! (i - 1) \<noteq> ?a"
        using List_repr_nth_eq [OF r ii(1) i(1)] ii k List_reprD(2) [OF r ii(1)] by simp_all
      moreover have "?as' ! i = as ! (i - 1)" "?xs' ! i = xs ! (i - 1)"
        "nth_ptr ?as' (Suc i) = nth_ptr as i"
        using 4 k lt f(2) by (auto simp: nth_append nth_Cons' nth_ptr_def min_def
            intro!: arg_cong [where f = "nth as"] arg_cong [where f = "nth xs"])
      ultimately show ?thesis
        using 4 ii List_reprD [OF r ii(1)]
        by (simp add: heap_read_update_other heap_read_append List_link_def)
    qed
  qed
  moreover have "distinct ?as'"
    using f(3) List_repr_fresh [OF r] distinct_take [of as k] distinct_drop [of as k]
      set_take_disj_set_drop_if_distinct [of as k k]
    by (auto dest: in_set_takeD in_set_dropD)
  ultimately have "List_repr ?h3 ?l' ?as' ?xs'"
    using f k by (auto simp: List_repr_iff nth_ptr_def nth_append min_def
        intro!: arg_cong [where f = "nth as"])
  with eq show ?thesis by blast
qed

lemma List_remove_middle_repr:
  assumes r: "List_repr h l as xs" and k: "0 < k" "Suc k < length as"
  shows "\<exists>h' l'. List_remove h l k = Some (Inr (h', l')) \<and>
           List_repr h' l' (take k as @ drop (Suc k) as) (take k xs @ drop (Suc k) xs)"
proof -
  let ?n = "length as"
  let ?c = "as ! k" and ?p = "as ! (k - 1)" and ?q = "as ! Suc k"
  let ?as' = "take k as @ drop (Suc k) as" and ?xs' = "take k xs @ drop (Suc k) xs"
  note f = List_repr_fields [OF r]
  have i: "k - 1 < ?n" "k - 1 \<noteq> k" "k < ?n" "0 < ?n" using k by linarith+
  have hd: "head_m l = Some (as ! 0)" using f(4) i by (simp add: nth_ptr_def)
  have L: "\<forall>j<length as. heap_read h (Some (as ! j)) = Inr (List_link as xs j)"
    using List_reprD(1) [OF r] by simp
  have at: "List_walk_prev h 0 k None (Some (as ! 0)) = Inr (Some ?p, Some ?c)"
    using k by (intro List_walk_prev_linked [OF L, of 0 k]) auto
  have rc: "heap_read h (Some ?c) = Inr (List_link as xs k)"
    by (rule List_reprD [OF r i(3)])
  have pc: "snext (List_link as xs k) = Some ?q"
    using k by (simp_all add: List_link_def nth_ptr_def)
  have ne: "?p \<noteq> ?c"
    using List_repr_nth_eq [OF r i(1) i(3)] i by simp_all
  let ?h1 = "h[?p := Some ((List_link as xs (k - 1))\<lparr>snext := Some ?q\<rparr>)]"
  have w1: "heap_write h (Some ?p) (\<lambda>n. n\<lparr>snext := snext (List_link as xs k)\<rparr>) = Inr ?h1"
    unfolding pc by (intro heap_write_live List_reprD [OF r i(1)])
  let ?h2 = "?h1[?c := None]"
  have dl: "heap_delete ?h1 (Some ?c) = Inr ?h2"
    using ne rc by (intro heap_delete_live [where n = "List_link as xs k"])
      (simp add: heap_read_update_other)
  let ?l' = "l\<lparr>size_m := size_m l - 1\<rparr>"
  have "k \<noteq> ?n - Suc 0" using k by linarith
  then have eq: "List_remove h l k = Some (Inr (?h2, ?l'))"
    using k f(1) at rc w1 dl
    by (simp add: List_remove_def hd)
  have "heap_read ?h2 (Some (?as' ! i)) = Inr (List_link ?as' ?xs' i)"
    if lt: "i < ?n - 1" for i
  proof -
    consider "i < k - 1" | "i = k - 1" | "k \<le> i" by linarith
    then show ?thesis
    proof cases
      case 1
      then have ii: "i < ?n" "i < k" "Suc i < k" using k by linarith+
      have "as ! i \<noteq> ?c" "as ! i \<noteq> ?p"
        using List_repr_nth_eq [OF r ii(1) i(3)] List_repr_nth_eq [OF r ii(1) i(1)] 1 by simp_all
      then show ?thesis
        using ii k List_reprD [OF r ii(1)] f(2)
        by (auto simp: heap_read_update_other List_link_def nth_ptr_def nth_append)
    next
      case 2
      then have ii: "i < ?n" "i < k" "Suc i = k" using k by linarith+
      have "as ! i = ?p" using 2 by simp
      then show ?thesis
        using ii k List_reprD [OF r ii(1)] f(2) 2 ne
        by (auto simp: heap_read_update_other heap_read_update_same
            List_link_def nth_ptr_def nth_append min_def)
    next
      case 3
      then have ii: "Suc i < ?n" "k < Suc i" using lt by linarith+
      have "as ! Suc i \<noteq> ?c" "as ! Suc i \<noteq> ?p"
        using List_repr_nth_eq [OF r ii(1) i(3)] List_repr_nth_eq [OF r ii(1) i(1)] ii k by simp_all
      moreover have "?as' ! i = as ! Suc i" "?xs' ! i = xs ! Suc i"
        "nth_ptr ?as' (Suc i) = nth_ptr as (Suc (Suc i))"
        using 3 k lt f(2) by (auto simp: nth_append nth_ptr_def min_def
            intro!: arg_cong [where f = "nth as"] arg_cong [where f = "nth xs"])
      ultimately show ?thesis
        using 3 ii List_reprD [OF r ii(1)]
        by (simp add: heap_read_update_other List_link_def)
    qed
  qed
  moreover have "distinct ?as'"
    using f(3) distinct_take [of as k] distinct_drop [of as "Suc k"]
      set_take_disj_set_drop_if_distinct [of as k "Suc k"]
    by auto
  ultimately have "List_repr ?h2 ?l' ?as' ?xs'"
    using f k by (auto simp: List_repr_iff nth_ptr_def nth_append min_def
        intro!: arg_cong [where f = "nth as"])
  with eq show ?thesis by blast
qed

lemma List_insert_repr:
  assumes r: "List_repr h l as xs" and k: "k \<le> length as"
  shows "\<exists>h' l'. List_insert h l k v = Inr (h', l') \<and>
           List_repr h' l' (take k as @ length h # drop k as) (take k xs @ v # drop k xs)"
proof -
  note f = List_repr_fields [OF r]
  consider "k = 0" | "k = length as" "k \<noteq> 0" | "0 < k" "k < length as" using k by linarith
  then show ?thesis
  proof cases
    case 1
    then show ?thesis
      using List_push_front_repr [OF r, of v] by (simp add: List_insert_def)
  next
    case 2
    then show ?thesis
      using List_push_back_repr [OF r, of v] f by (simp add: List_insert_def)
  next
    case 3
    then show ?thesis by (rule List_insert_middle_repr [OF r])
  qed
qed

lemma List_remove_repr:
  assumes r: "List_repr h l as xs" and k: "k < length as"
  shows "\<exists>h' l'. List_remove h l k = Some (Inr (h', l')) \<and>
           List_repr h' l' (take k as @ drop (Suc k) as) (take k xs @ drop (Suc k) xs)"
proof -
  note f = List_repr_fields [OF r]
  consider "k = 0" | "k = length as - 1" "k \<noteq> 0" | "0 < k" "Suc k < length as" using k by linarith
  then show ?thesis
  proof cases
    case 1
    then show ?thesis
      using List_pop_front_repr [OF r] k f by (simp add: List_remove_def drop_Suc)
  next
    case 2
    then show ?thesis
      using List_pop_back_repr [OF r] k f by (simp add: List_remove_def butlast_conv_take)
  next
    case 3
    then show ?thesis by (rule List_remove_middle_repr [OF r])
  qed
qed

lemma List_delete_all_linked:
  assumes d: "distinct as"
  shows "i + k = length as \<Longrightarrow>
         (\<forall>j<length as. i \<le> j \<longrightarrow> heap_read h (Some (as ! j)) = Inr (List_link as xs j)) \<Longrightarrow>
         \<exists>h'. List_delete_all h i (length as) (nth_ptr as i) = Inr h' \<and> length h' = length h \<and>
              (\<forall>a. a \<notin> set as \<longrightarrow> heap_read h' (Some a) = heap_read h (Some a))"
proof (induction k arbitrary: i h)
  case 0
  then show ?case by (simp add: List_delete_all.simps)
next
  case (Suc k)
  then have i: "i < length as" by simp
  have rd: "heap_read h (Some (as ! i)) = Inr (List_link as xs i)"
    using Suc.prems(2) i by simp
  let ?h1 = "h[as ! i := None]"
  have dl: "heap_delete h (Some (as ! i)) = Inr ?h1"
    by (rule heap_delete_live [OF rd])
  have "\<forall>j<length as. Suc i \<le> j \<longrightarrow> heap_read ?h1 (Some (as ! j)) = Inr (List_link as xs j)"
  proof (intro allI impI)
    fix j assume j: "j < length as" "Suc i \<le> j"
    then have "as ! j \<noteq> as ! i" using d i by (simp add: nth_eq_iff_index_eq)
    then show "heap_read ?h1 (Some (as ! j)) = Inr (List_link as xs j)"
      using Suc.prems(2) j by (simp add: heap_read_update_other)
  qed
  from Suc.IH [OF _ this] Suc.prems(1)
  obtain h' where h': "List_delete_all ?h1 (Suc i) (length as) (nth_ptr as (Suc i)) = Inr h'"
    "length h' = length h" "\<forall>a. a \<notin> set as \<longrightarrow> heap_read h' (Some a) = heap_read ?h1 (Some a)"
    by auto
  have "List_delete_all h i (length as) (nth_ptr as i) = Inr h'"
    using i rd dl h'(1)
    by (subst List_delete_all.simps) (simp add: nth_ptr_simps List_link_def)
  moreover have "\<forall>a. a \<notin> set as \<longrightarrow> heap_read h' (Some a) = heap_read h (Some a)"
  proof (intro allI impI)
    fix a assume a: "a \<notin> set as"
    then have "a \<noteq> as ! i" using i by auto
    then show "heap_read h' (Some a) = heap_read h (Some a)"
      using h'(3) a by (simp add: heap_read_update_other)
  qed
  ultimately show ?case using h'(2) by simp
qed

lemma List_clear_repr:
  assumes r: "List_repr h l as xs"
  shows "\<exists>h' l'. List_clear h l = Inr (h', l') \<and> List_repr h' l' [] [] \<and> length h' = length h \<and>
           (\<forall>a. a \<notin> set as \<longrightarrow> heap_read h' (Some a) = heap_read h (Some a))"
proof (cases "as = []")
  case True
  then show ?thesis using r by (simp add: List_clear_def List_repr_iff)
next
  case False
  note f = List_repr_fields [OF r]
  have "\<forall>j<length as. 0 \<le> j \<longrightarrow> heap_read h (Some (as ! j)) = Inr (List_link as xs j)"
    using List_reprD(1) [OF r] by simp
  from List_delete_all_linked [OF f(3) _ this, of "length as"]
  obtain h' where "List_delete_all h 0 (length as) (nth_ptr as 0) = Inr h'" "length h' = length h"
    "\<forall>a. a \<notin> set as \<longrightarrow> heap_read h' (Some a) = heap_read h (Some a)"
    by auto
  then show ?thesis
    using False f by (simp add: List_clear_def List_repr_iff nth_ptr_def)
qed

section \<open>Checked access and the silent no-op policy\<close>

lemma heap_read_error: "heap_read h p = Inl e \<Longrightarrow> e = NullDeref \<or> e = Dangling"
  by (auto simp: heap_read_def split: option.splits if_splits)

lemma DList_walk_next_error:
  "DList_walk_next h i index c = Inl e \<Longrightarrow> e = NullDeref \<or> e = Dangling"
proof (induction h i index c rule: DList_walk_next.induct)
  case (1 h i index current)
  from "1.prems" show ?case
    by (subst (asm) DList_walk_next.simps)
      (auto split: if_splits sum.splits dest: heap_read_error "1.IH")
qed

lemma DList_walk_previous_error:
  "DList_walk_previous h i index c = Inl e \<Longrightarrow> e = NullDeref \<or> e = Dangling"
proof (induction h i index c rule: DList_walk_previous.induct)
  case (1 h i index current)
  from "1.prems" show ?case
    by (subst (asm) DList_walk_previous.simps)
      (auto split: if_splits sum.splits dest: heap_read_error "1.IH")
qed

lemma List_walk_next_error:
  "List_walk_next h i index c = Inl e \<Longrightarrow> e = NullDeref \<or> e = Dangling"
proof (induction h i index c rule: List_walk_next.induct)
  case (1 h i index current)
  from "1.prems" show ?case
    by (subst (asm) List_walk_next.simps)
      (auto split: if_splits sum.splits dest: heap_read_error "1.IH")
qed

lemma DList_subscript_error:
  "DList_subscript h l index = Inl e \<Longrightarrow> e = NullDeref \<or> e = Dangling"
  by (auto simp: DList_subscript_def DList_node_at_def ebind_def split: sum.splits if_splits
      dest: heap_read_error DList_walk_next_error DList_walk_previous_error)

lemma List_subscript_error:
  "List_subscript h l index = Inl e \<Longrightarrow> e = NullDeref \<or> e = Dangling"
  by (auto simp: List_subscript_def ebind_def split: sum.splits if_splits
      dest: heap_read_error List_walk_next_error)

text \<open>
  Claim C1. For both lists and every index, \<open>at(index)\<close> throws \<open>std::out_of_range\<close> if and
  only if \<open>index \<ge> size()\<close>, and the message of the exception spells out the requested
  index and the current size; for \<open>index < size()\<close> it returns what \<open>operator[](index)\<close>
  returns (whatever that is: \<open>operator[]\<close> itself never throws \<open>out_of_range\<close>). \<open>at\<close> is a
  \<open>const\<close> member: it reads the store and the container and returns neither, so both are
  unchanged.
\<close>

theorem at_checked_access:
  fixes h :: "'a DNode heap" and hs :: "'b SNode heap"
  shows
  "(size_m l \<le> index \<longrightarrow>
      DList_at h l index = Inl (OutOfRange
        (''[Out of range error] - manual::DoublyLinkedList::at() - (index: '' @ to_string index
           @ '', size: '' @ to_string (size_m l) @ '').''))) \<and>
   (index < size_m l \<longrightarrow>
      DList_at h l index = DList_subscript h l index \<and>
      (\<forall>m. DList_at h l index \<noteq> Inl (OutOfRange m))) \<and>
   (size_m l \<le> index \<longrightarrow>
      List_at hs l index = Inl (OutOfRange
        (''[Out of range error] - manual::LinkedList::at() - (index: '' @ to_string index
           @ '', size: '' @ to_string (size_m l) @ '').''))) \<and>
   (index < size_m l \<longrightarrow>
      List_at hs l index = List_subscript hs l index \<and>
      (\<forall>m. List_at hs l index \<noteq> Inl (OutOfRange m)))"
proof -
  have "DList_subscript h l index \<noteq> Inl (OutOfRange m)" for m
    using DList_subscript_error [of h l index "OutOfRange m"] by auto
  moreover have "List_subscript hs l index \<noteq> Inl (OutOfRange m)" for m
    using List_subscript_error [of hs l index "OutOfRange m"] by auto
  ultimately show ?thesis
    by (simp add: DList_at_def List_at_def DList_at_message_def List_at_message_def)
qed

lemma DList_example_inv: "DList_inv DList_example_heap example_container"
  by code_simp

lemma List_example_inv: "List_inv List_example_heap example_container"
  by code_simp

theorem at_checked_access_witness:
  "size_m example_container \<le> 5 \<and>
   DList_at DList_example_heap example_container 5 = Inl (OutOfRange
     ''[Out of range error] - manual::DoublyLinkedList::at() - (index: 5, size: 3).'') \<and>
   List_at List_example_heap example_container 5 = Inl (OutOfRange
     ''[Out of range error] - manual::LinkedList::at() - (index: 5, size: 3).'') \<and>
   1 < size_m example_container \<and>
   DList_at DList_example_heap example_container 1 = DList_subscript DList_example_heap example_container 1 \<and>
   DList_at DList_example_heap example_container 1 = Inr 20 \<and>
   List_at List_example_heap example_container 1 = List_subscript List_example_heap example_container 1 \<and>
   List_at List_example_heap example_container 1 = Inr 20"
proof -
  have a: "size_m example_container \<le> 5" and b: "1 < size_m example_container"
    by (simp_all add: example_container_def)
  have t: "to_string 5 = ''5''" "to_string 3 = ''3''" "to_string (size_m example_container) = ''3''"
    by code_simp+
  have v: "DList_subscript DList_example_heap example_container 1 = Inr 20"
    "List_subscript List_example_heap example_container 1 = Inr 20"
    by code_simp+
  show ?thesis
    using at_checked_access [of example_container 5 DList_example_heap List_example_heap]
      at_checked_access [of example_container 1 DList_example_heap List_example_heap] a b v
    by (simp add: t)
qed

text \<open>
  Claim C4. For both lists, \<open>insert\<close> with \<open>index > size\<close>, \<open>remove\<close> with \<open>index \<ge> size\<close>, and
  \<open>pop_front\<close> and \<open>pop_back\<close> on a container of size 0 return normally and leave the store
  and the container exactly as they were.
\<close>

theorem silent_no_op:
  fixes h :: "'a DNode heap" and hs :: "'b SNode heap"
  shows
  "(size_m l < index \<longrightarrow> DList_insert h l index v = Inr (h, l)) \<and>
   (size_m l \<le> index \<longrightarrow> DList_remove h l index = Inr (h, l)) \<and>
   (size_m l = 0 \<longrightarrow> DList_pop_front h l = Inr (h, l) \<and> DList_pop_back h l = Inr (h, l)) \<and>
   (size_m l < index \<longrightarrow> List_insert hs l index w = Inr (hs, l)) \<and>
   (size_m l \<le> index \<longrightarrow> List_remove hs l index = Some (Inr (hs, l))) \<and>
   (size_m l = 0 \<longrightarrow> List_pop_front hs l = Inr (hs, l) \<and> List_pop_back hs l = Some (Inr (hs, l)))"
  by (simp add: DList_insert_def DList_remove_def DList_pop_front_def DList_pop_back_def
      List_insert_def List_remove_def List_pop_front_def List_pop_back_def)

theorem silent_no_op_witness:
  "size_m example_container < 4 \<and>
   DList_insert DList_example_heap example_container 4 (7::nat) = Inr (DList_example_heap, example_container) \<and>
   List_insert List_example_heap example_container 4 (7::nat) = Inr (List_example_heap, example_container) \<and>
   size_m example_container \<le> 3 \<and>
   DList_remove DList_example_heap example_container 3 = Inr (DList_example_heap, example_container) \<and>
   List_remove List_example_heap example_container 3 = Some (Inr (List_example_heap, example_container)) \<and>
   size_m empty_container = 0 \<and>
   DList_pop_front ([] :: nat DNode heap) empty_container = Inr ([], empty_container) \<and>
   DList_pop_back ([] :: nat DNode heap) empty_container = Inr ([], empty_container) \<and>
   List_pop_front ([] :: nat SNode heap) empty_container = Inr ([], empty_container) \<and>
   List_pop_back ([] :: nat SNode heap) empty_container = Some (Inr ([], empty_container))"
proof -
  have a: "size_m example_container < 4" "size_m example_container \<le> 3" "size_m empty_container = 0"
    by (simp_all add: example_container_def empty_container_def)
  show ?thesis
    using silent_no_op [of example_container 4 DList_example_heap 7 List_example_heap 7]
      silent_no_op [of example_container 3 DList_example_heap 7 List_example_heap 7]
      silent_no_op [of empty_container 0 "[] :: nat DNode heap" 7 "[] :: nat SNode heap" 7] a
    by simp
qed

section \<open>Insertion and removal\<close>

lemma DList_repr_inv:
  assumes "DList_repr h l as xs"
  shows "DList_inv h l" and "DList_values h l = xs" and "DList_addrs h l = as"
    and "size_m l = length xs"
  using assms DList_repr_addrs [OF assms] DList_inv_iff DList_repr_fields [OF assms] by auto

lemma List_repr_inv:
  assumes "List_repr h l as xs"
  shows "List_inv h l" and "List_values h l = xs" and "List_addrs h l = as"
    and "size_m l = length xs"
  using assms List_repr_addrs [OF assms] List_inv_iff List_repr_fields [OF assms] by auto

lemma DList_inv_repr: "DList_inv h l \<Longrightarrow> DList_repr h l (DList_addrs h l) (DList_values h l)"
  by (simp add: DList_inv_def)

lemma List_inv_repr: "List_inv h l \<Longrightarrow> List_repr h l (List_addrs h l) (List_values h l)"
  by (simp add: List_inv_def)

lemma DList_push_on_empty:
  assumes "DList_inv h l" "size_m l = 0"
  shows "DList_push_front h l v = DList_push_back h l v"
proof -
  from assms have "head_m l = None" "tail_m l = None"
    using DList_repr_fields [OF DList_inv_repr [OF assms(1)]] by (simp_all add: nth_ptr_def)
  then show ?thesis
    using assms(2) by (simp add: DList_push_front_def DList_push_back_def)
qed

lemma List_push_on_empty:
  assumes "List_inv h l" "size_m l = 0"
  shows "List_push_front h l v = List_push_back h l v"
proof -
  from assms have "head_m l = None" "tail_m l = None"
    using List_repr_fields [OF List_inv_repr [OF assms(1)]] by (simp_all add: nth_ptr_def)
  then show ?thesis
    using assms(2) by (simp add: List_push_front_def List_push_back_def)
qed

lemma DList_insert_values:
  assumes i: "DList_inv h l" and k: "index \<le> size_m l"
  shows "\<exists>h' l'. DList_insert h l index v = Inr (h', l') \<and> DList_inv h' l' \<and>
           DList_values h' l' = take index (DList_values h l) @ [v] @ drop index (DList_values h l) \<and>
           size_m l' = size_m l + 1"
proof -
  note r = DList_inv_repr [OF i]
  have k': "index \<le> length (DList_addrs h l)"
    using k DList_repr_fields(1) [OF r] by simp
  from DList_insert_repr [OF r k', of v] obtain h' l' where
    e: "DList_insert h l index v = Inr (h', l')" and
    r': "DList_repr h' l' (take index (DList_addrs h l) @ length h # drop index (DList_addrs h l))
           (take index (DList_values h l) @ v # drop index (DList_values h l))"
    by blast
  show ?thesis
    using e DList_repr_inv [OF r'] DList_repr_inv(4) [OF r] k by auto
qed

lemma List_insert_values:
  assumes i: "List_inv h l" and k: "index \<le> size_m l"
  shows "\<exists>h' l'. List_insert h l index v = Inr (h', l') \<and> List_inv h' l' \<and>
           List_values h' l' = take index (List_values h l) @ [v] @ drop index (List_values h l) \<and>
           size_m l' = size_m l + 1"
proof -
  note r = List_inv_repr [OF i]
  have k': "index \<le> length (List_addrs h l)"
    using k List_repr_fields(1) [OF r] by simp
  from List_insert_repr [OF r k', of v] obtain h' l' where
    e: "List_insert h l index v = Inr (h', l')" and
    r': "List_repr h' l' (take index (List_addrs h l) @ length h # drop index (List_addrs h l))
           (take index (List_values h l) @ v # drop index (List_values h l))"
    by blast
  show ?thesis
    using e List_repr_inv [OF r'] List_repr_inv(4) [OF r] k by auto
qed

lemma DList_remove_values:
  assumes i: "DList_inv h l" and k: "index < size_m l"
  shows "\<exists>h' l'. DList_remove h l index = Inr (h', l') \<and> DList_inv h' l' \<and>
           DList_values h' l' = take index (DList_values h l) @ drop (Suc index) (DList_values h l) \<and>
           size_m l' = size_m l - 1"
proof -
  note r = DList_inv_repr [OF i]
  have k': "index < length (DList_addrs h l)"
    using k DList_repr_fields(1) [OF r] by simp
  from DList_remove_repr [OF r k'] obtain h' l' where
    e: "DList_remove h l index = Inr (h', l')" and
    r': "DList_repr h' l' (take index (DList_addrs h l) @ drop (Suc index) (DList_addrs h l))
           (take index (DList_values h l) @ drop (Suc index) (DList_values h l))"
    by blast
  show ?thesis
    using e DList_repr_inv [OF r'] DList_repr_inv(4) [OF r] k by auto
qed

lemma List_remove_values:
  assumes i: "List_inv h l" and k: "index < size_m l"
  shows "\<exists>h' l'. List_remove h l index = Some (Inr (h', l')) \<and> List_inv h' l' \<and>
           List_values h' l' = take index (List_values h l) @ drop (Suc index) (List_values h l) \<and>
           size_m l' = size_m l - 1"
proof -
  note r = List_inv_repr [OF i]
  have k': "index < length (List_addrs h l)"
    using k List_repr_fields(1) [OF r] by simp
  from List_remove_repr [OF r k'] obtain h' l' where
    e: "List_remove h l index = Some (Inr (h', l'))" and
    r': "List_repr h' l' (take index (List_addrs h l) @ drop (Suc index) (List_addrs h l))
           (take index (List_values h l) @ drop (Suc index) (List_values h l))"
    by blast
  show ?thesis
    using e List_repr_inv [OF r'] List_repr_inv(4) [OF r] k by auto
qed

text \<open>
  Claim C3. For a well-formed list of either kind and every \<open>index \<le> size\<close>,
  \<open>insert(index, value)\<close> returns normally, leaves a well-formed list whose sequence is
  \<open>old[0..index) ++ [value] ++ old[index..size)\<close> and whose size is one more, so that the
  new element is the one at position \<open>index\<close>; \<open>insert(0, value)\<close> is \<open>push_front(value)\<close>
  and \<open>insert(size, value)\<close> is \<open>push_back(value)\<close>.
\<close>

theorem insert_sequence:
  fixes h :: "'a DNode heap" and hs :: "'b SNode heap"
  shows
  "(DList_inv h l \<and> index \<le> size_m l \<longrightarrow>
      (\<exists>h' l'. DList_insert h l index v = Inr (h', l') \<and> DList_inv h' l' \<and>
         DList_values h' l' = take index (DList_values h l) @ [v] @ drop index (DList_values h l) \<and>
         DList_values h' l' ! index = v \<and> size_m l' = size_m l + 1) \<and>
      DList_insert h l 0 v = DList_push_front h l v \<and>
      DList_insert h l (size_m l) v = DList_push_back h l v) \<and>
   (List_inv hs ls \<and> index \<le> size_m ls \<longrightarrow>
      (\<exists>h' l'. List_insert hs ls index w = Inr (h', l') \<and> List_inv h' l' \<and>
         List_values h' l' = take index (List_values hs ls) @ [w] @ drop index (List_values hs ls) \<and>
         List_values h' l' ! index = w \<and> size_m l' = size_m ls + 1) \<and>
      List_insert hs ls 0 w = List_push_front hs ls w \<and>
      List_insert hs ls (size_m ls) w = List_push_back hs ls w)"
proof (intro conjI impI; elim conjE)
  assume i: "DList_inv h l" and k: "index \<le> size_m l"
  have "length (DList_values h l) = size_m l"
    using DList_repr_inv(4) [OF DList_inv_repr [OF i]] by simp
  then show "\<exists>h' l'. DList_insert h l index v = Inr (h', l') \<and> DList_inv h' l' \<and>
         DList_values h' l' = take index (DList_values h l) @ [v] @ drop index (DList_values h l) \<and>
         DList_values h' l' ! index = v \<and> size_m l' = size_m l + 1"
    using DList_insert_values [OF i k, of v] k by (auto simp: nth_append)
  show "DList_insert h l 0 v = DList_push_front h l v"
    by (simp add: DList_insert_def)
  show "DList_insert h l (size_m l) v = DList_push_back h l v"
    using DList_push_on_empty [OF i] by (simp add: DList_insert_def)
next
  assume i: "List_inv hs ls" and k: "index \<le> size_m ls"
  have "length (List_values hs ls) = size_m ls"
    using List_repr_inv(4) [OF List_inv_repr [OF i]] by simp
  then show "\<exists>h' l'. List_insert hs ls index w = Inr (h', l') \<and> List_inv h' l' \<and>
         List_values h' l' = take index (List_values hs ls) @ [w] @ drop index (List_values hs ls) \<and>
         List_values h' l' ! index = w \<and> size_m l' = size_m ls + 1"
    using List_insert_values [OF i k, of w] k by (auto simp: nth_append)
  show "List_insert hs ls 0 w = List_push_front hs ls w"
    by (simp add: List_insert_def)
  show "List_insert hs ls (size_m ls) w = List_push_back hs ls w"
    using List_push_on_empty [OF i] by (simp add: List_insert_def)
qed

theorem insert_sequence_witness:
  "DList_inv DList_example_heap example_container \<and> 1 \<le> size_m example_container \<and>
   (\<exists>h' l'. DList_insert DList_example_heap example_container 1 (15::nat) = Inr (h', l') \<and>
      DList_inv h' l' \<and> DList_values h' l' = [10, 15, 20, 30] \<and> size_m l' = 4) \<and>
   List_inv List_example_heap example_container \<and>
   (\<exists>h' l'. List_insert List_example_heap example_container 1 (15::nat) = Inr (h', l') \<and>
      List_inv h' l' \<and> List_values h' l' = [10, 15, 20, 30] \<and> size_m l' = 4)"
proof -
  have a: "DList_inv DList_example_heap example_container" "1 \<le> size_m example_container"
    "List_inv List_example_heap example_container"
    by code_simp+
  have v: "DList_values DList_example_heap example_container = [10, 20, 30]"
    "List_values List_example_heap example_container = [10, 20, 30]"
    "size_m example_container = 3"
    by code_simp+
  show ?thesis
    using insert_sequence [of DList_example_heap example_container 1 15 List_example_heap
        example_container 15] a
    by (simp add: v) blast
qed

text \<open>
  Claim C6. For a well-formed list of either kind, every value and every \<open>i \<le> size\<close>,
  \<open>insert(i, v)\<close> followed by \<open>remove(i)\<close> returns normally and leaves a well-formed list
  with the element sequence and the size it had before the insertion.
\<close>

theorem insert_then_remove:
  fixes h :: "'a DNode heap" and hs :: "'b SNode heap"
  shows
  "(DList_inv h l \<and> i \<le> size_m l \<longrightarrow>
      (\<exists>h1 l1 h2 l2. DList_insert h l i v = Inr (h1, l1) \<and> DList_remove h1 l1 i = Inr (h2, l2) \<and>
         DList_inv h2 l2 \<and> DList_values h2 l2 = DList_values h l \<and> size_m l2 = size_m l)) \<and>
   (List_inv hs ls \<and> i \<le> size_m ls \<longrightarrow>
      (\<exists>h1 l1 h2 l2. List_insert hs ls i w = Inr (h1, l1) \<and> List_remove h1 l1 i = Some (Inr (h2, l2)) \<and>
         List_inv h2 l2 \<and> List_values h2 l2 = List_values hs ls \<and> size_m l2 = size_m ls))"
proof (intro conjI impI; elim conjE)
  assume i: "DList_inv h l" and k: "i \<le> size_m l"
  have len: "length (DList_values h l) = size_m l"
    using DList_repr_inv(4) [OF DList_inv_repr [OF i]] by simp
  from DList_insert_values [OF i k, of v] obtain h1 l1 where
    1: "DList_insert h l i v = Inr (h1, l1)" "DList_inv h1 l1"
    "DList_values h1 l1 = take i (DList_values h l) @ [v] @ drop i (DList_values h l)"
    "size_m l1 = size_m l + 1"
    by blast
  have k1: "i < size_m l1" using 1(4) k by simp
  from DList_remove_values [OF 1(2) k1] obtain h2 l2 where
    2: "DList_remove h1 l1 i = Inr (h2, l2)" "DList_inv h2 l2"
    "DList_values h2 l2 = take i (DList_values h1 l1) @ drop (Suc i) (DList_values h1 l1)"
    "size_m l2 = size_m l1 - 1"
    by blast
  have "DList_values h2 l2 = DList_values h l"
    using 2(3) 1(3) k len by simp
  then show "\<exists>h1 l1 h2 l2. DList_insert h l i v = Inr (h1, l1) \<and> DList_remove h1 l1 i = Inr (h2, l2) \<and>
         DList_inv h2 l2 \<and> DList_values h2 l2 = DList_values h l \<and> size_m l2 = size_m l"
    using 1 2 by simp
next
  assume i: "List_inv hs ls" and k: "i \<le> size_m ls"
  have len: "length (List_values hs ls) = size_m ls"
    using List_repr_inv(4) [OF List_inv_repr [OF i]] by simp
  from List_insert_values [OF i k, of w] obtain h1 l1 where
    1: "List_insert hs ls i w = Inr (h1, l1)" "List_inv h1 l1"
    "List_values h1 l1 = take i (List_values hs ls) @ [w] @ drop i (List_values hs ls)"
    "size_m l1 = size_m ls + 1"
    by blast
  have k1: "i < size_m l1" using 1(4) k by simp
  from List_remove_values [OF 1(2) k1] obtain h2 l2 where
    2: "List_remove h1 l1 i = Some (Inr (h2, l2))" "List_inv h2 l2"
    "List_values h2 l2 = take i (List_values h1 l1) @ drop (Suc i) (List_values h1 l1)"
    "size_m l2 = size_m l1 - 1"
    by blast
  have "List_values h2 l2 = List_values hs ls"
    using 2(3) 1(3) k len by simp
  then show "\<exists>h1 l1 h2 l2. List_insert hs ls i w = Inr (h1, l1) \<and> List_remove h1 l1 i = Some (Inr (h2, l2)) \<and>
         List_inv h2 l2 \<and> List_values h2 l2 = List_values hs ls \<and> size_m l2 = size_m ls"
    using 1 2 by simp
qed

theorem insert_then_remove_witness:
  "DList_inv DList_example_heap example_container \<and> 1 \<le> size_m example_container \<and>
   (\<exists>h1 l1 h2 l2. DList_insert DList_example_heap example_container 1 (15::nat) = Inr (h1, l1) \<and>
      DList_remove h1 l1 1 = Inr (h2, l2) \<and> DList_inv h2 l2 \<and>
      DList_values h2 l2 = [10, 20, 30] \<and> size_m l2 = 3) \<and>
   List_inv List_example_heap example_container \<and>
   (\<exists>h1 l1 h2 l2. List_insert List_example_heap example_container 1 (15::nat) = Inr (h1, l1) \<and>
      List_remove h1 l1 1 = Some (Inr (h2, l2)) \<and> List_inv h2 l2 \<and>
      List_values h2 l2 = [10, 20, 30] \<and> size_m l2 = 3)"
proof -
  have a: "DList_inv DList_example_heap example_container" "1 \<le> size_m example_container"
    "List_inv List_example_heap example_container"
    by code_simp+
  have v: "DList_values DList_example_heap example_container = [10, 20, 30]"
    "List_values List_example_heap example_container = [10, 20, 30]"
    "size_m example_container = 3"
    by code_simp+
  show ?thesis
    using insert_then_remove [of DList_example_heap example_container 1 15 List_example_heap
        example_container 15] a
    by (simp add: v)
qed

section \<open>Nearest-end traversal\<close>

declare DList_walk_next_visits.simps [simp del] DList_walk_previous_visits.simps [simp del]

lemma DList_subscript_repr:
  assumes r: "DList_repr h l as xs" and k: "index < length as"
  shows "DList_subscript h l index = Inr (xs ! index)"
  using DList_node_at_repr [OF r k] DList_reprD(1) [OF r k]
  by (simp add: DList_subscript_def DList_link_def)

lemma DList_naive_subscript_repr:
  assumes r: "DList_repr h l as xs" and k: "index < length as"
  shows "DList_naive_subscript h l index = Inr (xs ! index)"
proof -
  have L: "\<forall>j<length as. heap_read h (Some (as ! j)) = Inr (DList_link as xs j)"
    using DList_reprD(1) [OF r] by simp
  have "DList_walk_next h 0 index (Some (as ! 0)) = Inr (Some (as ! index))"
    using k by (intro DList_walk_next_linked [OF L, of 0 index]) auto
  moreover have "as \<noteq> []" using k by auto
  ultimately show ?thesis
    using k DList_reprD(1) [OF r k] DList_repr_fields(4) [OF r]
    by (simp add: DList_naive_subscript_def nth_ptr_def DList_link_def)
qed

text \<open>
  Claim C2. For every doubly linked list and \<open>index < size\<close>, on every store, the lookup
  of \<open>operator[]\<close> is the backward walk from the tail exactly when \<open>size-1-index < index\<close>
  and the forward walk from the head otherwise, and \<open>operator[]\<close> returns the value of the
  node that walk ends at; at an exact midpoint (\<open>size-1-index = index\<close>) it is the forward
  walk. On a well-formed list it returns what the forward-only walk from the head
  returns, which is the element at position \<open>index\<close> of the sequence.
\<close>

theorem nearest_end_lookup:
  "(index < size_m l \<longrightarrow>
      closer_to_end (size_m l) index = (size_m l - 1 - index < index) \<and>
      DList_node_at h l index =
        (if size_m l - 1 - index < index
         then DList_walk_previous h (size_m l - 1) index (tail_m l)
         else DList_walk_next h 0 index (head_m l)) \<and>
      (size_m l - 1 - index = index \<longrightarrow>
         DList_node_at h l index = DList_walk_next h 0 index (head_m l)) \<and>
      DList_subscript h l index =
        ebind (if size_m l - 1 - index < index
               then DList_walk_previous h (size_m l - 1) index (tail_m l)
               else DList_walk_next h 0 index (head_m l))
          (\<lambda>current. ebind (heap_read h current) (\<lambda>n. Inr (dvalue n)))) \<and>
   (DList_inv h l \<and> index < size_m l \<longrightarrow>
      DList_subscript h l index = DList_naive_subscript h l index \<and>
      DList_subscript h l index = Inr (DList_values h l ! index))"
proof (intro conjI impI)
  assume k: "index < size_m l"
  have c: "closer_to_end (size_m l) index = (size_m l - 1 - index < index)"
    by (rule closer_to_end_iff [OF k])
  have s: "size_t_sub (size_m l) 1 = size_m l - 1"
    using k by (simp add: size_t_sub_def)
  show "closer_to_end (size_m l) index = (size_m l - 1 - index < index)"
    by (rule c)
  show n: "DList_node_at h l index =
        (if size_m l - 1 - index < index
         then DList_walk_previous h (size_m l - 1) index (tail_m l)
         else DList_walk_next h 0 index (head_m l))"
    unfolding DList_node_at_def c s ..
  show "DList_node_at h l index = DList_walk_next h 0 index (head_m l)"
    if "size_m l - 1 - index = index"
    using that by (simp add: n)
  show "DList_subscript h l index =
        ebind (if size_m l - 1 - index < index
               then DList_walk_previous h (size_m l - 1) index (tail_m l)
               else DList_walk_next h 0 index (head_m l))
          (\<lambda>current. ebind (heap_read h current) (\<lambda>n. Inr (dvalue n)))"
    unfolding DList_subscript_def n ..
next
  assume "DList_inv h l \<and> index < size_m l"
  then have i: "DList_inv h l" and k: "index < size_m l"
    by simp_all
  note r = DList_inv_repr [OF i]
  have k': "index < length (DList_addrs h l)"
    using k DList_repr_fields(1) [OF r] by simp
  show "DList_subscript h l index = DList_naive_subscript h l index"
    using DList_subscript_repr [OF r k'] DList_naive_subscript_repr [OF r k'] by simp
  show "DList_subscript h l index = Inr (DList_values h l ! index)"
    by (rule DList_subscript_repr [OF r k'])
qed

theorem nearest_end_lookup_witness:
  "DList_inv DList_example_heap example_container \<and> 1 < size_m example_container \<and>
   size_m example_container - 1 - 1 = 1 \<and>
   DList_subscript DList_example_heap example_container 1 = Inr 20 \<and>
   DList_naive_subscript DList_example_heap example_container 1 = Inr 20 \<and>
   DList_node_at DList_example_heap example_container 1
     = DList_walk_next DList_example_heap 0 1 (head_m example_container) \<and>
   2 < size_m example_container \<and>
   DList_subscript DList_example_heap example_container 2 = Inr 30 \<and>
   DList_naive_subscript DList_example_heap example_container 2 = Inr 30 \<and>
   DList_node_at DList_example_heap example_container 2
     = DList_walk_previous DList_example_heap 2 2 (tail_m example_container) \<and>
   DList_node_at DList_cut_heap example_container 1
     = DList_walk_next DList_cut_heap 0 1 (head_m example_container) \<and>
   DList_walk_next DList_cut_heap 0 1 (head_m example_container) = Inr (Some 1) \<and>
   DList_walk_previous DList_cut_heap 2 1 (tail_m example_container) = Inr None \<and>
   DList_subscript DList_cut_heap example_container 1 = Inr 20 \<and>
   DList_node_at DList_cut_heap example_container 2
     = DList_walk_previous DList_cut_heap 2 2 (tail_m example_container) \<and>
   DList_walk_previous DList_cut_heap 2 2 (tail_m example_container) = Inr (Some 2) \<and>
   DList_walk_next DList_cut_heap 0 2 (head_m example_container) = Inr None \<and>
   DList_subscript DList_cut_heap example_container 2 = Inr 30 \<and>
   DList_naive_subscript DList_cut_heap example_container 2 = Inl NullDeref"
proof -
  have a: "DList_inv DList_example_heap example_container" "1 < size_m example_container"
    "2 < size_m example_container"
    by code_simp+
  have v: "DList_values DList_example_heap example_container = [10, 20, 30]"
    "size_m example_container = 3"
    by code_simp+
  have w: "DList_walk_next DList_example_heap 0 (Suc 0) (head_m example_container) = Inr (Some (Suc 0))"
    "DList_walk_previous DList_example_heap 2 2 (tail_m example_container) = Inr (Some 2)"
    "DList_naive_subscript DList_example_heap example_container (Suc 0) = Inr 20"
    "DList_naive_subscript DList_example_heap example_container 2 = Inr 30"
    "DList_walk_next DList_cut_heap 0 (Suc 0) (head_m example_container) = Inr (Some (Suc 0))"
    "DList_walk_previous DList_cut_heap 2 (Suc 0) (tail_m example_container) = Inr None"
    "DList_walk_previous DList_cut_heap 2 2 (tail_m example_container) = Inr (Some 2)"
    "DList_walk_next DList_cut_heap 0 2 (head_m example_container) = Inr None"
    "DList_naive_subscript DList_cut_heap example_container 2 = Inl NullDeref"
    "heap_read DList_example_heap (Some (Suc 0)) = Inr \<lparr>dvalue = 20, dnext = Some 2, dprevious = Some 0\<rparr>"
    "heap_read DList_example_heap (Some 2) = Inr \<lparr>dvalue = 30, dnext = None, dprevious = Some (Suc 0)\<rparr>"
    "heap_read DList_cut_heap (Some (Suc 0)) = Inr \<lparr>dvalue = 20, dnext = None, dprevious = Some 0\<rparr>"
    "heap_read DList_cut_heap (Some 2) = Inr \<lparr>dvalue = 30, dnext = None, dprevious = None\<rparr>"
    by code_simp+
  show ?thesis
    using nearest_end_lookup [of 1 example_container DList_example_heap]
      nearest_end_lookup [of 2 example_container DList_example_heap]
      nearest_end_lookup [of 1 example_container DList_cut_heap]
      nearest_end_lookup [of 2 example_container DList_cut_heap] a
    by (simp add: v w)
qed

lemma DList_walk_next_visits_linked:
  assumes "\<forall>j<length as. heap_read h (Some (as ! j)) = Inr (DList_link as xs j)"
  shows "i + k = index \<Longrightarrow> index < length as \<Longrightarrow>
         DList_walk_next_visits h i index (Some (as ! i)) = Inr (map (\<lambda>j. Some (as ! j)) [i..<Suc index])"
proof (induction k arbitrary: i)
  case 0
  then show ?case by (simp add: DList_walk_next_visits.simps)
next
  case (Suc k)
  then have "heap_read h (Some (as ! i)) = Inr (DList_link as xs i)" "Suc i < length as"
    using assms by auto
  then show ?case
    using Suc.IH [of "Suc i"] Suc.prems
    by (subst DList_walk_next_visits.simps) (simp add: DList_link_def nth_ptr_def upt_conv_Cons)
qed

lemma DList_walk_previous_visits_linked:
  assumes "\<forall>j<length as. heap_read h (Some (as ! j)) = Inr (DList_link as xs j)"
  shows "index + k = i \<Longrightarrow> i < length as \<Longrightarrow>
         DList_walk_previous_visits h i index (Some (as ! i))
           = Inr (map (\<lambda>j. Some (as ! j)) (rev [index..<Suc i]))"
proof (induction k arbitrary: i)
  case 0
  then show ?case by (simp add: DList_walk_previous_visits.simps)
next
  case (Suc k)
  then have "heap_read h (Some (as ! i)) = Inr (DList_link as xs i)" "i \<noteq> 0" "index \<le> i - 1"
    using assms by auto
  then show ?case
    using Suc.IH [of "i - 1"] Suc.prems
    by (subst DList_walk_previous_visits.simps) (simp add: DList_link_def nth_ptr_def)
qed

lemma DList_node_at_visits_repr:
  assumes r: "DList_repr h l as xs" and k: "index < length as"
  shows "DList_node_at_visits h l index =
           Inr (if length as - 1 - index < index
                then rev (map Some (drop index as))
                else map Some (take (Suc index) as))"
proof -
  have L: "\<forall>j<length as. heap_read h (Some (as ! j)) = Inr (DList_link as xs j)"
    using DList_reprD(1) [OF r] by simp
  note f = DList_repr_fields [OF r]
  have c: "closer_to_end (size_m l) index = (length as - 1 - index < index)"
    using closer_to_end_iff [of index "size_m l"] k f(1) by simp
  have "as \<noteq> []" using k by auto
  then have hd: "head_m l = Some (as ! 0)" and tl: "tail_m l = Some (as ! (length as - 1))"
    using f k by (simp_all add: nth_ptr_def)
  have dr: "drop index as = map (nth as) [index..<length as]"
    by (metis drop_map drop_upt map_nth add_0)
  have tk: "take (Suc index) as = map (nth as) [0..<Suc index]"
    using k by (metis take_map take_upt map_nth add_0 Suc_leI)
  show ?thesis
  proof (cases "length as - 1 - index < index")
    case True
    have sn: "Suc (length as - 1) = length as" using k by simp
    have "DList_walk_previous_visits h (length as - 1) index (Some (as ! (length as - 1)))
            = Inr (map (\<lambda>j. Some (as ! j)) (rev [index..<Suc (length as - 1)]))"
      using k by (intro DList_walk_previous_visits_linked [OF L, of index "length as - 1 - index"]) auto
    then have "DList_walk_previous_visits h (length as - 1) index (Some (as ! (length as - 1)))
            = Inr (map (\<lambda>j. Some (as ! j)) (rev [index..<length as]))"
      unfolding sn .
    then show ?thesis
      using True c k f(1) by (simp add: DList_node_at_visits_def tl size_t_sub_def dr rev_map o_def)
  next
    case False
    have "DList_walk_next_visits h 0 index (Some (as ! 0)) = Inr (map (\<lambda>j. Some (as ! j)) [0..<Suc index])"
      using k by (intro DList_walk_next_visits_linked [OF L, of 0 index]) auto
    then show ?thesis
      using False c by (simp add: DList_node_at_visits_def hd tk o_def del: upt_Suc)
  qed
qed

text \<open>
  The instrumented loops are the loops of \<open>operator[]\<close>: on every store, dropping the ghost
  list gives back the walk, errors included, and when the walk returns the ghost list
  starts at the node the walk started from and has one entry for the start and one for
  every step.
\<close>

lemma DList_walk_next_visits_erase:
  "DList_walk_next h i index c =
     (case DList_walk_next_visits h i index c of Inl e \<Rightarrow> Inl e | Inr vs \<Rightarrow> Inr (last vs)) \<and>
   (\<forall>vs. DList_walk_next_visits h i index c = Inr vs \<longrightarrow>
      vs \<noteq> [] \<and> hd vs = c \<and> length vs = Suc (index - i))"
proof (induction h i index c rule: DList_walk_next_visits.induct)
  case (1 h i index current)
  note u = DList_walk_next.simps [of h i index current]
    DList_walk_next_visits.simps [of h i index current]
  show ?case
  proof (cases "i < index")
    case False
    then show ?thesis by (simp add: u)
  next
    case True
    show ?thesis
    proof (cases "heap_read h current")
      case (Inl e)
      then show ?thesis using True by (simp add: u)
    next
      case (Inr n)
      have "Suc (Suc (index - Suc i)) = Suc (index - i)"
        using True by simp
      then show ?thesis
        using True Inr "1.IH" [OF True Inr]
        by (auto simp: u ebind_def split: sum.splits)
    qed
  qed
qed

lemma DList_walk_previous_visits_erase:
  "DList_walk_previous h i index c =
     (case DList_walk_previous_visits h i index c of Inl e \<Rightarrow> Inl e | Inr vs \<Rightarrow> Inr (last vs)) \<and>
   (\<forall>vs. DList_walk_previous_visits h i index c = Inr vs \<longrightarrow>
      vs \<noteq> [] \<and> hd vs = c \<and> length vs = Suc (i - index))"
proof (induction h i index c rule: DList_walk_previous_visits.induct)
  case (1 h i index current)
  note u = DList_walk_previous.simps [of h i index current]
    DList_walk_previous_visits.simps [of h i index current]
  show ?case
  proof (cases "index < i")
    case False
    then show ?thesis by (simp add: u)
  next
    case True
    show ?thesis
    proof (cases "heap_read h current")
      case (Inl e)
      then show ?thesis using True by (simp add: u)
    next
      case (Inr n)
      have "Suc (Suc (i - 1 - index)) = Suc (i - index)"
        using True by simp
      then show ?thesis
        using True Inr "1.IH" [OF True Inr]
        by (auto simp: u ebind_def split: sum.splits)
    qed
  qed
qed

lemma DList_node_at_visits_erase:
  "DList_node_at h l index =
     (case DList_node_at_visits h l index of Inl e \<Rightarrow> Inl e | Inr vs \<Rightarrow> Inr (last vs))"
  using DList_walk_next_visits_erase [of h 0 index "head_m l"]
    DList_walk_previous_visits_erase [of h "size_t_sub (size_m l) 1" index "tail_m l"]
  by (simp add: DList_node_at_visits_def DList_node_at_def)

lemma DList_node_at_visits_count:
  assumes k: "index < size_m l" and v: "DList_node_at_visits h l index = Inr vs"
  shows "vs \<noteq> []"
    "hd vs = (if size_m l - 1 - index < index then tail_m l else head_m l)"
    "length vs = (if size_m l - 1 - index < index then size_m l - index else index + 1)"
    "length vs = min (index + 1) (size_m l - index)"
proof -
  have c: "closer_to_end (size_m l) index = (size_m l - 1 - index < index)"
    by (rule closer_to_end_iff [OF k])
  have s: "size_t_sub (size_m l) 1 = size_m l - 1"
    using k by (simp add: size_t_sub_def)
  have n: "Suc (size_m l - 1 - index) = size_m l - index"
    using k by simp
  have v': "(if size_m l - 1 - index < index
             then DList_walk_previous_visits h (size_m l - 1) index (tail_m l)
             else DList_walk_next_visits h 0 index (head_m l)) = Inr vs"
    using v unfolding DList_node_at_visits_def c s .
  note F = DList_walk_next_visits_erase [of h 0 index "head_m l", THEN conjunct2, rule_format]
  note B = DList_walk_previous_visits_erase [of h "size_m l - 1" index "tail_m l",
      THEN conjunct2, rule_format]
  have a: "vs \<noteq> [] \<and>
      hd vs = (if size_m l - 1 - index < index then tail_m l else head_m l) \<and>
      length vs = (if size_m l - 1 - index < index then size_m l - index else index + 1)"
  proof (cases "size_m l - 1 - index < index")
    case True
    with v' have "DList_walk_previous_visits h (size_m l - 1) index (tail_m l) = Inr vs"
      by simp
    from B [OF this] show ?thesis
      unfolding n using True by simp
  next
    case False
    with v' have "DList_walk_next_visits h 0 index (head_m l) = Inr vs"
      by simp
    from F [OF this] show ?thesis
      using False by simp
  qed
  then show "vs \<noteq> []"
    "hd vs = (if size_m l - 1 - index < index then tail_m l else head_m l)"
    "length vs = (if size_m l - 1 - index < index then size_m l - index else index + 1)"
    by simp_all
  show "length vs = min (index + 1) (size_m l - index)"
    using a k by (auto simp: min_def)
qed

lemma DList_node_at_visits_last:
  "DList_node_at_visits h l index = Inr vs \<Longrightarrow> vs \<noteq> [] \<and> DList_node_at h l index = Inr (last vs)"
  using DList_node_at_visits_erase [of h l index]
    DList_walk_next_visits_erase [of h 0 index "head_m l"]
    DList_walk_previous_visits_erase [of h "size_t_sub (size_m l) 1" index "tail_m l"]
  by (auto simp: DList_node_at_visits_def split: if_splits)

text \<open>
  Claim C9. For every doubly linked list of size \<open>N\<close> and \<open>i < N\<close>: on every store, the
  lookup of \<open>operator[](i)\<close> is its instrumented run with the record of the visits dropped
  (it fails where that fails and returns the last node that visits), and whenever it
  returns it has pointed \<open>current\<close> at exactly \<open>min(i+1, N-i)\<close> nodes, starting at the head
  and visiting \<open>i+1\<close> nodes when \<open>N-1-i < i\<close> is false, starting at the tail and visiting
  \<open>N-i\<close> nodes when it is true. On a well-formed list it returns, and the nodes visited
  are the first \<open>i+1\<close> nodes of the list from the head, or its last \<open>N-i\<close> nodes from the
  tail.
\<close>

theorem lookup_visits:
  "DList_node_at h l i =
     (case DList_node_at_visits h l i of Inl e \<Rightarrow> Inl e | Inr visited \<Rightarrow> Inr (last visited)) \<and>
   DList_subscript h l i =
     ebind (DList_node_at_visits h l i) (\<lambda>visited.
     ebind (heap_read h (last visited)) (\<lambda>n. Inr (dvalue n))) \<and>
   (i < size_m l \<longrightarrow>
      (\<forall>visited. DList_node_at_visits h l i = Inr visited \<longrightarrow>
         visited \<noteq> [] \<and>
         length visited = min (i + 1) (size_m l - i) \<and>
         length visited = (if size_m l - 1 - i < i then size_m l - i else i + 1) \<and>
         hd visited = (if size_m l - 1 - i < i then tail_m l else head_m l) \<and>
         DList_node_at h l i = Inr (last visited))) \<and>
   (DList_inv h l \<and> i < size_m l \<longrightarrow>
     (\<exists>visited. DList_node_at_visits h l i = Inr visited \<and>
        length visited = min (i + 1) (size_m l - i) \<and>
        visited = (if closer_to_end (size_m l) i
                   then rev (map Some (drop i (DList_addrs h l)))
                   else map Some (take (i + 1) (DList_addrs h l))) \<and>
        length (rev (map Some (drop i (DList_addrs h l)))) = size_m l - i \<and>
        length (map Some (take (i + 1) (DList_addrs h l))) = i + 1 \<and>
        DList_node_at h l i = Inr (last visited)))"
proof (intro conjI impI allI)
  show "DList_node_at h l i =
     (case DList_node_at_visits h l i of Inl e \<Rightarrow> Inl e | Inr visited \<Rightarrow> Inr (last visited))"
    by (rule DList_node_at_visits_erase)
  show "DList_subscript h l i =
     ebind (DList_node_at_visits h l i) (\<lambda>visited.
     ebind (heap_read h (last visited)) (\<lambda>n. Inr (dvalue n)))"
    unfolding DList_subscript_def DList_node_at_visits_erase [of h l i]
    by (simp add: ebind_def split: sum.splits)
next
  fix visited
  assume k: "i < size_m l" and v: "DList_node_at_visits h l i = Inr visited"
  note c = DList_node_at_visits_count [OF k v]
  show "visited \<noteq> []" by (rule c(1))
  show "length visited = min (i + 1) (size_m l - i)" by (rule c(4))
  show "length visited = (if size_m l - 1 - i < i then size_m l - i else i + 1)" by (rule c(3))
  show "hd visited = (if size_m l - 1 - i < i then tail_m l else head_m l)" by (rule c(2))
  show "DList_node_at h l i = Inr (last visited)"
    using DList_node_at_visits_last [OF v] by simp
next
  assume "DList_inv h l \<and> i < size_m l"
  then have i: "DList_inv h l" and k: "i < size_m l"
    by simp_all
  note r = DList_inv_repr [OF i]
  have n: "length (DList_addrs h l) = size_m l"
    using DList_repr_fields(1) [OF r] by simp
  have k': "i < length (DList_addrs h l)" using k n by simp
  have c: "closer_to_end (size_m l) i = (size_m l - 1 - i < i)"
    by (rule closer_to_end_iff [OF k])
  let ?vs = "if size_m l - 1 - i < i then rev (map Some (drop i (DList_addrs h l)))
             else map Some (take (Suc i) (DList_addrs h l))"
  have e: "DList_node_at_visits h l i = Inr ?vs"
    using DList_node_at_visits_repr [OF r k'] n by simp
  have "length ?vs = min (i + 1) (size_m l - i)"
    using k n by (auto simp: min_def)
  then show "\<exists>visited. DList_node_at_visits h l i = Inr visited \<and>
        length visited = min (i + 1) (size_m l - i) \<and>
        visited = (if closer_to_end (size_m l) i
                   then rev (map Some (drop i (DList_addrs h l)))
                   else map Some (take (i + 1) (DList_addrs h l))) \<and>
        length (rev (map Some (drop i (DList_addrs h l)))) = size_m l - i \<and>
        length (map Some (take (i + 1) (DList_addrs h l))) = i + 1 \<and>
        DList_node_at h l i = Inr (last visited)"
    using e DList_node_at_visits_last [OF e] c k n by (auto simp: min_def)
qed

theorem lookup_visits_witness:
  "DList_inv DList_example_heap example_container \<and> 2 < size_m example_container \<and>
   (\<exists>visited. DList_node_at_visits DList_example_heap example_container 2 = Inr visited \<and>
      length visited = 1 \<and> visited = [Some 2]) \<and>
   1 < size_m example_container \<and>
   (\<exists>visited. DList_node_at_visits DList_example_heap example_container 1 = Inr visited \<and>
      length visited = 2 \<and> visited = [Some 0, Some 1]) \<and>
   DList_node_at_visits DList_cut_heap example_container 2 = Inr [Some 2] \<and>
   DList_node_at DList_cut_heap example_container 2 = Inr (Some 2) \<and>
   DList_walk_next DList_cut_heap 0 2 (head_m example_container) = Inr None \<and>
   DList_subscript DList_cut_heap example_container 2 = Inr 30 \<and>
   DList_node_at_visits DList_cut_heap example_container 1 = Inr [Some 0, Some 1] \<and>
   DList_node_at DList_cut_heap example_container 1 = Inr (Some 1) \<and>
   DList_walk_previous DList_cut_heap 2 1 (tail_m example_container) = Inr None \<and>
   DList_subscript DList_cut_heap example_container 1 = Inr 20"
proof -
  have a: "DList_inv DList_example_heap example_container" "1 < size_m example_container"
    "2 < size_m example_container"
    by code_simp+
  have v: "DList_addrs DList_example_heap example_container = [0, 1, 2]"
    "size_m example_container = 3" "closer_to_end 3 2" "\<not> closer_to_end 3 (Suc 0)"
    by code_simp+
  have w: "DList_node_at_visits DList_cut_heap example_container 2 = Inr [Some 2]"
    "DList_node_at_visits DList_cut_heap example_container (Suc 0) = Inr [Some 0, Some (Suc 0)]"
    "DList_walk_next DList_cut_heap 0 2 (head_m example_container) = Inr None"
    "DList_walk_previous DList_cut_heap 2 (Suc 0) (tail_m example_container) = Inr None"
    "heap_read DList_cut_heap (Some (Suc 0)) = Inr \<lparr>dvalue = 20, dnext = None, dprevious = Some 0\<rparr>"
    "heap_read DList_cut_heap (Some 2) = Inr \<lparr>dvalue = 30, dnext = None, dprevious = None\<rparr>"
    by code_simp+
  show ?thesis
    using lookup_visits [of DList_example_heap example_container 1]
      lookup_visits [of DList_example_heap example_container 2]
      lookup_visits [of DList_cut_heap example_container 1]
      lookup_visits [of DList_cut_heap example_container 2] a
    by (simp add: v w)
qed

section \<open>Cursors\<close>

lemma step_loop_repeat:
  "i + k = rhs \<Longrightarrow> step_loop step i rhs it = repeat_steps k step it"
proof (induction k arbitrary: i it)
  case 0
  then show ?case by (simp add: step_loop.simps)
next
  case (Suc k)
  then have "i < rhs" by simp
  then show ?case
    using Suc.IH [of "Suc i"] Suc.prems
    by (subst step_loop.simps) (simp add: ebind_def split: sum.splits)
qed

lemma DList_tail_node:
  assumes "DList_inv h l" "size_m l \<noteq> 0"
  shows "\<exists>n. tail_m l \<noteq> None \<and> heap_read h (tail_m l) = Inr n \<and> dnext n = None"
proof -
  note r = DList_inv_repr [OF assms(1)]
  let ?as = "DList_addrs h l"
  have n: "length ?as - 1 < length ?as" "?as \<noteq> []"
    using assms(2) DList_repr_fields(1) [OF r] by auto
  then show ?thesis
    using DList_reprD(1) [OF r n(1)] DList_repr_fields(5) [OF r]
    by (simp add: nth_ptr_def DList_link_def)
qed

lemma DList_head_node:
  assumes "DList_inv h l" "size_m l \<noteq> 0"
  shows "\<exists>n. head_m l \<noteq> None \<and> heap_read h (head_m l) = Inr n \<and> dprevious n = None"
proof -
  note r = DList_inv_repr [OF assms(1)]
  let ?as = "DList_addrs h l"
  have n: "0 < length ?as" "?as \<noteq> []"
    using assms(2) DList_repr_fields(1) [OF r] by auto
  then show ?thesis
    using DList_reprD(1) [OF r n(1)] DList_repr_fields(4) [OF r]
    by (simp add: nth_ptr_def DList_link_def)
qed

lemma List_tail_node:
  assumes "List_inv h l" "size_m l \<noteq> 0"
  shows "\<exists>n. tail_m l \<noteq> None \<and> heap_read h (tail_m l) = Inr n \<and> snext n = None"
proof -
  note r = List_inv_repr [OF assms(1)]
  let ?as = "List_addrs h l"
  have n: "length ?as - 1 < length ?as" "?as \<noteq> []"
    using assms(2) List_repr_fields(1) [OF r] by auto
  then show ?thesis
    using List_reprD(1) [OF r n(1)] List_repr_fields(5) [OF r]
    by (simp add: nth_ptr_def List_link_def)
qed

lemma DList_empty_fields:
  assumes "DList_inv h l" "size_m l = 0"
  shows "head_m l = None" "tail_m l = None"
  using DList_repr_fields [OF DList_inv_repr [OF assms(1)]] assms(2) by (simp_all add: nth_ptr_def)

lemma List_empty_fields:
  assumes "List_inv h l" "size_m l = 0"
  shows "head_m l = None" "tail_m l = None"
  using List_repr_fields [OF List_inv_repr [OF assms(1)]] assms(2) by (simp_all add: nth_ptr_def)

text \<open>
  Claim C8. For the cursors of a well-formed container: \<open>++\<close> on a forward cursor at the
  last element, and on a reverse cursor at the first element, yields the sentinel (and
  so does \<open>--\<close> at the other end); \<open>++\<close> and \<open>--\<close> on the sentinel return normally and
  leave it the sentinel; and \<open>it += n\<close>, \<open>it -= n\<close> are \<open>n\<close> repeated single steps, on every
  cursor and every store.
\<close>

theorem cursor_steps:
  fixes h :: "'a DNode heap" and hs :: "'b SNode heap"
  shows
  "(DList_inv h l \<and> size_m l \<noteq> 0 \<longrightarrow>
      DList_incr Iterator h \<lparr>node = tail_m l\<rparr> = Inr \<lparr>node = None\<rparr> \<and>
      DList_incr ConstIterator h \<lparr>node = tail_m l\<rparr> = Inr \<lparr>node = None\<rparr> \<and>
      DList_incr ReverseIterator h \<lparr>node = head_m l\<rparr> = Inr \<lparr>node = None\<rparr> \<and>
      DList_incr ConstReverseIterator h \<lparr>node = head_m l\<rparr> = Inr \<lparr>node = None\<rparr> \<and>
      DList_decr Iterator h \<lparr>node = head_m l\<rparr> = Inr \<lparr>node = None\<rparr> \<and>
      DList_decr ConstIterator h \<lparr>node = head_m l\<rparr> = Inr \<lparr>node = None\<rparr> \<and>
      DList_decr ReverseIterator h \<lparr>node = tail_m l\<rparr> = Inr \<lparr>node = None\<rparr> \<and>
      DList_decr ConstReverseIterator h \<lparr>node = tail_m l\<rparr> = Inr \<lparr>node = None\<rparr>) \<and>
   (List_inv hs ls \<and> size_m ls \<noteq> 0 \<longrightarrow>
      List_incr hs \<lparr>node = tail_m ls\<rparr> = Inr \<lparr>node = None\<rparr>) \<and>
   DList_incr c h \<lparr>node = None\<rparr> = Inr \<lparr>node = None\<rparr> \<and>
   DList_decr c h \<lparr>node = None\<rparr> = Inr \<lparr>node = None\<rparr> \<and>
   List_incr hs \<lparr>node = None\<rparr> = Inr \<lparr>node = None\<rparr> \<and>
   DList_plus_assign c h it n = repeat_steps n (DList_incr c h) it \<and>
   DList_minus_assign c h it n = repeat_steps n (DList_decr c h) it \<and>
   List_plus_assign hs it n = repeat_steps n (List_incr hs) it"
proof (intro conjI impI; (elim conjE)?)
  assume i: "DList_inv h l" and n: "size_m l \<noteq> 0"
  from DList_tail_node [OF i n] obtain t where
    t: "tail_m l \<noteq> None" "heap_read h (tail_m l) = Inr t" "dnext t = None" by blast
  from DList_head_node [OF i n] obtain f where
    f: "head_m l \<noteq> None" "heap_read h (head_m l) = Inr f" "dprevious f = None" by blast
  show "DList_incr Iterator h \<lparr>node = tail_m l\<rparr> = Inr \<lparr>node = None\<rparr>"
    "DList_incr ConstIterator h \<lparr>node = tail_m l\<rparr> = Inr \<lparr>node = None\<rparr>"
    "DList_decr ReverseIterator h \<lparr>node = tail_m l\<rparr> = Inr \<lparr>node = None\<rparr>"
    "DList_decr ConstReverseIterator h \<lparr>node = tail_m l\<rparr> = Inr \<lparr>node = None\<rparr>"
    using t by simp_all
  show "DList_incr ReverseIterator h \<lparr>node = head_m l\<rparr> = Inr \<lparr>node = None\<rparr>"
    "DList_incr ConstReverseIterator h \<lparr>node = head_m l\<rparr> = Inr \<lparr>node = None\<rparr>"
    "DList_decr Iterator h \<lparr>node = head_m l\<rparr> = Inr \<lparr>node = None\<rparr>"
    "DList_decr ConstIterator h \<lparr>node = head_m l\<rparr> = Inr \<lparr>node = None\<rparr>"
    using f by simp_all
next
  assume i: "List_inv hs ls" and n: "size_m ls \<noteq> 0"
  from List_tail_node [OF i n] obtain t where
    t: "tail_m ls \<noteq> None" "heap_read hs (tail_m ls) = Inr t" "snext t = None" by blast
  then show "List_incr hs \<lparr>node = tail_m ls\<rparr> = Inr \<lparr>node = None\<rparr>"
    by (simp add: List_incr_def)
next
  show "DList_incr c h \<lparr>node = None\<rparr> = Inr \<lparr>node = None\<rparr>"
    "DList_decr c h \<lparr>node = None\<rparr> = Inr \<lparr>node = None\<rparr>"
    by (cases c; simp)+
  show "List_incr hs \<lparr>node = None\<rparr> = Inr \<lparr>node = None\<rparr>"
    by (simp add: List_incr_def)
  show "DList_plus_assign c h it n = repeat_steps n (DList_incr c h) it"
    "DList_minus_assign c h it n = repeat_steps n (DList_decr c h) it"
    "List_plus_assign hs it n = repeat_steps n (List_incr hs) it"
    by (simp_all add: DList_plus_assign_def DList_minus_assign_def List_plus_assign_def
        step_loop_repeat)
qed

theorem cursor_steps_witness:
  "DList_inv DList_example_heap example_container \<and> size_m example_container \<noteq> 0 \<and>
   DList_incr Iterator DList_example_heap \<lparr>node = Some 2\<rparr> = Inr \<lparr>node = None\<rparr> \<and>
   DList_incr ReverseIterator DList_example_heap \<lparr>node = Some 0\<rparr> = Inr \<lparr>node = None\<rparr> \<and>
   List_inv List_example_heap example_container \<and>
   List_incr List_example_heap \<lparr>node = Some 2\<rparr> = Inr \<lparr>node = None\<rparr> \<and>
   DList_plus_assign Iterator DList_example_heap \<lparr>node = Some 0\<rparr> 2 = Inr \<lparr>node = Some 2\<rparr>"
proof -
  have a: "DList_inv DList_example_heap example_container" "size_m example_container \<noteq> 0"
    "List_inv List_example_heap example_container"
    by code_simp+
  have v: "tail_m example_container = Some 2" "head_m example_container = Some 0"
    by code_simp+
  have s: "repeat_steps 2 (DList_incr Iterator DList_example_heap) \<lparr>node = Some 0\<rparr>
             = Inr \<lparr>node = Some 2\<rparr>"
    by code_simp
  show ?thesis
    using cursor_steps [of DList_example_heap example_container List_example_heap
        example_container Iterator "\<lparr>node = Some 0\<rparr>" 2] a s
    by (simp add: v)
qed

text \<open>
  Claim C10. \<open>end()\<close> and \<open>cend()\<close> of both lists read \<open>tail_->next\<close>, and \<open>rend()\<close> and
  \<open>crend()\<close> of the doubly linked list read \<open>head_->previous\<close>: each dereferences a null
  pointer exactly when that member is null, which is the case on an empty container, and
  returns the sentinel cursor on a non-empty well-formed one. \<open>begin()\<close>, \<open>cbegin()\<close>,
  \<open>rbegin()\<close> and \<open>crbegin()\<close> only copy \<open>head_\<close> or \<open>tail_\<close>, so on an empty container they
  return the sentinel cursor.
\<close>

theorem end_needs_non_empty:
  fixes h :: "'a DNode heap" and hs :: "'b SNode heap"
  shows
  "(DList_end h l = Inl NullDeref) = (tail_m l = None) \<and>
   (DList_cend h l = Inl NullDeref) = (tail_m l = None) \<and>
   (DList_rend h l = Inl NullDeref) = (head_m l = None) \<and>
   (DList_crend h l = Inl NullDeref) = (head_m l = None) \<and>
   (List_end hs ls = Inl NullDeref) = (tail_m ls = None) \<and>
   (List_cend hs ls = Inl NullDeref) = (tail_m ls = None) \<and>
   (DList_inv h l \<and> size_m l = 0 \<longrightarrow>
      DList_end h l = Inl NullDeref \<and> DList_cend h l = Inl NullDeref \<and>
      DList_rend h l = Inl NullDeref \<and> DList_crend h l = Inl NullDeref \<and>
      DList_begin l = \<lparr>node = None\<rparr> \<and> DList_cbegin l = \<lparr>node = None\<rparr> \<and>
      DList_rbegin l = \<lparr>node = None\<rparr> \<and> DList_crbegin l = \<lparr>node = None\<rparr>) \<and>
   (DList_inv h l \<and> size_m l \<noteq> 0 \<longrightarrow>
      DList_end h l = Inr \<lparr>node = None\<rparr> \<and> DList_cend h l = Inr \<lparr>node = None\<rparr> \<and>
      DList_rend h l = Inr \<lparr>node = None\<rparr> \<and> DList_crend h l = Inr \<lparr>node = None\<rparr>) \<and>
   (List_inv hs ls \<and> size_m ls = 0 \<longrightarrow>
      List_end hs ls = Inl NullDeref \<and> List_cend hs ls = Inl NullDeref \<and>
      List_begin ls = \<lparr>node = None\<rparr> \<and> List_cbegin ls = \<lparr>node = None\<rparr>) \<and>
   (List_inv hs ls \<and> size_m ls \<noteq> 0 \<longrightarrow>
      List_end hs ls = Inr \<lparr>node = None\<rparr> \<and> List_cend hs ls = Inr \<lparr>node = None\<rparr>)"
proof -
  have nd: "(ebind (heap_read g p) f = Inl NullDeref) = (p = None)"
    if "\<And>x. f x \<noteq> Inl NullDeref" for g :: "'n heap" and p and f :: "'n \<Rightarrow> error + Cursor"
    using that by (cases p) (auto simp: heap_read_def ebind_def split: option.splits sum.splits)
  have 1: "(DList_end h l = Inl NullDeref) = (tail_m l = None)"
    "(DList_cend h l = Inl NullDeref) = (tail_m l = None)"
    "(DList_rend h l = Inl NullDeref) = (head_m l = None)"
    "(DList_crend h l = Inl NullDeref) = (head_m l = None)"
    "(List_end hs ls = Inl NullDeref) = (tail_m ls = None)"
    "(List_cend hs ls = Inl NullDeref) = (tail_m ls = None)"
    unfolding DList_end_def DList_cend_def DList_rend_def DList_crend_def List_end_def List_cend_def
    by (rule nd, simp)+
  have 2: "DList_end h l = Inr \<lparr>node = None\<rparr> \<and> DList_cend h l = Inr \<lparr>node = None\<rparr> \<and>
      DList_rend h l = Inr \<lparr>node = None\<rparr> \<and> DList_crend h l = Inr \<lparr>node = None\<rparr>"
    if i: "DList_inv h l" and n: "size_m l \<noteq> 0"
    using DList_tail_node [OF i n] DList_head_node [OF i n]
    by (auto simp: DList_end_def DList_cend_def DList_rend_def DList_crend_def)
  have 3: "List_end hs ls = Inr \<lparr>node = None\<rparr> \<and> List_cend hs ls = Inr \<lparr>node = None\<rparr>"
    if i: "List_inv hs ls" and n: "size_m ls \<noteq> 0"
    using List_tail_node [OF i n] by (auto simp: List_end_def List_cend_def)
  have 4: "DList_begin l = \<lparr>node = None\<rparr> \<and> DList_cbegin l = \<lparr>node = None\<rparr> \<and>
      DList_rbegin l = \<lparr>node = None\<rparr> \<and> DList_crbegin l = \<lparr>node = None\<rparr> \<and>
      head_m l = None \<and> tail_m l = None"
    if i: "DList_inv h l" and n: "size_m l = 0"
    using DList_empty_fields [OF i n]
    by (simp add: DList_begin_def DList_cbegin_def DList_rbegin_def DList_crbegin_def)
  have 5: "List_begin ls = \<lparr>node = None\<rparr> \<and> List_cbegin ls = \<lparr>node = None\<rparr> \<and>
      head_m ls = None \<and> tail_m ls = None"
    if i: "List_inv hs ls" and n: "size_m ls = 0"
    using List_empty_fields [OF i n] by (simp add: List_begin_def List_cbegin_def)
  show ?thesis
    using 1 2 3 4 5 by simp
qed

theorem end_needs_non_empty_witness:
  "DList_inv ([] :: nat DNode heap) empty_container \<and> size_m empty_container = 0 \<and>
   DList_end ([] :: nat DNode heap) empty_container = Inl NullDeref \<and>
   DList_rend ([] :: nat DNode heap) empty_container = Inl NullDeref \<and>
   DList_begin empty_container = \<lparr>node = None\<rparr> \<and>
   List_inv ([] :: nat SNode heap) empty_container \<and>
   List_end ([] :: nat SNode heap) empty_container = Inl NullDeref \<and>
   DList_inv DList_example_heap example_container \<and> size_m example_container \<noteq> 0 \<and>
   DList_end DList_example_heap example_container = Inr \<lparr>node = None\<rparr> \<and>
   DList_rend DList_example_heap example_container = Inr \<lparr>node = None\<rparr> \<and>
   List_inv List_example_heap example_container \<and>
   List_end List_example_heap example_container = Inr \<lparr>node = None\<rparr>"
proof -
  have a: "DList_inv ([] :: nat DNode heap) empty_container" "size_m empty_container = 0"
    "List_inv ([] :: nat SNode heap) empty_container"
    "DList_inv DList_example_heap example_container" "size_m example_container \<noteq> 0"
    "List_inv List_example_heap example_container"
    by code_simp+
  show ?thesis
    using end_needs_non_empty [of "[] :: nat DNode heap" empty_container "[] :: nat SNode heap"
        empty_container]
      end_needs_non_empty [of DList_example_heap example_container List_example_heap
        example_container] a
    by simp
qed

section \<open>Copying\<close>

lemma DList_repr_frame:
  assumes "DList_repr h l as xs"
    and "\<And>a. a \<in> set as \<Longrightarrow> heap_read h' (Some a) = heap_read h (Some a)"
  shows "DList_repr h' l as xs"
  using assms by (auto simp: DList_repr_iff)

lemma DList_copy_loop_linked:
  fixes h0 :: "'a DNode heap"
  assumes other: "\<And>i. i < length bs \<Longrightarrow> heap_read h0 (Some (bs ! i)) = Inr (DList_link bs ys i)"
  defines "m \<equiv> length h0"
  defines "N \<equiv> \<lambda>j i. \<lparr>dvalue = ys ! i, dnext = (if Suc i < j then Some (m + Suc i) else None),
                       dprevious = (if i = 0 then None else Some (m + i - 1))\<rparr>"
  shows "j + k = length bs \<Longrightarrow> 0 < j \<Longrightarrow> length h = m + j \<Longrightarrow>
         (\<forall>a<m. heap_read h (Some a) = heap_read h0 (Some a)) \<Longrightarrow>
         (\<forall>i<j. heap_read h (Some (m + i)) = Inr (N j i)) \<Longrightarrow>
         \<exists>h'. DList_copy_loop h (Some (m + j - 1)) (Some (bs ! (j - 1)))
                 = Some (Inr (h', Some (m + length bs - 1))) \<and>
              length h' = m + length bs \<and>
              (\<forall>a<m. heap_read h' (Some a) = heap_read h0 (Some a)) \<and>
              (\<forall>i<length bs. heap_read h' (Some (m + i)) = Inr (N (length bs) i))"
proof (induction k arbitrary: j h)
  case 0
  then have j: "j = length bs" "j - 1 < length bs" by simp_all
  have b: "bs ! (j - 1) < m"
    using other [OF j(2)] by (simp add: heap_read_Inr_iff m_def)
  have "heap_read h (Some (bs ! (j - 1))) = Inr (DList_link bs ys (j - 1))"
    using other [OF j(2)] "0.prems"(4) b by simp
  moreover have "dnext (DList_link bs ys (j - 1)) = None"
    using j "0.prems"(2) by (simp add: DList_link_def nth_ptr_def)
  ultimately have "DList_copy_loop h (Some (m + j - 1)) (Some (bs ! (j - 1))) = Some (Inr (h, Some (m + j - 1)))"
    by (subst DList_copy_loop.simps) simp
  then show ?case
    using "0.prems" j by simp
next
  case (Suc k)
  then have j: "j < length bs" "j - 1 < length bs" "Suc (j - 1) = j" by simp_all
  have b: "bs ! (j - 1) < m" "bs ! j < m"
    using other [OF j(2)] other [OF j(1)] by (simp_all add: heap_read_Inr_iff m_def)
  have r0: "heap_read h (Some (bs ! (j - 1))) = Inr (DList_link bs ys (j - 1))"
    using other [OF j(2)] Suc.prems(4) b by simp
  have n0: "dnext (DList_link bs ys (j - 1)) = Some (bs ! j)"
    using j by (simp add: DList_link_def nth_ptr_def)
  have r1: "heap_read h (Some (bs ! j)) = Inr (DList_link bs ys j)"
    using other [OF j(1)] Suc.prems(4) b by simp
  let ?new = "\<lparr>dvalue = ys ! j, dnext = None, dprevious = Some (m + j - 1)\<rparr>"
  let ?h1 = "h @ [Some ?new]"
  let ?h2 = "?h1[m + j - 1 := Some ((N j (j - 1))\<lparr>dnext := Some (m + j)\<rparr>)]"
  have jj: "j - 1 < j" using Suc.prems(2) by arith
  have e1: "m + j - 1 = m + (j - 1)" using Suc.prems(2) by arith
  have "heap_read h (Some (m + (j - 1))) = Inr (N j (j - 1))"
    using Suc.prems(5) [rule_format, OF jj] .
  moreover have "m + (j - 1) < length h"
    using Suc.prems(3) jj by arith
  ultimately have rc: "heap_read ?h1 (Some (m + j - 1)) = Inr (N j (j - 1))"
    unfolding e1 by (simp only: heap_read_append)
  have w: "heap_write ?h1 (Some (m + j - 1)) (\<lambda>n. n\<lparr>dnext := Some (length h)\<rparr>) = Inr ?h2"
    using heap_write_live [OF rc] Suc.prems(3) by simp
  have step: "DList_copy_loop h (Some (m + j - 1)) (Some (bs ! (j - 1)))
                = DList_copy_loop ?h2 (Some (length h)) (Some (bs ! j))"
    using r0 n0 r1 w by (subst DList_copy_loop.simps) (simp add: DList_link_def)
  have p3: "length ?h2 = m + Suc j" using Suc.prems(3) by simp
  have p4: "\<forall>a<m. heap_read ?h2 (Some a) = heap_read h0 (Some a)"
    using Suc.prems(2,3,4) by (simp add: heap_read_update_other heap_read_append)
  have p5: "\<forall>i<Suc j. heap_read ?h2 (Some (m + i)) = Inr (N (Suc j) i)"
  proof (intro allI impI)
    fix i assume i: "i < Suc j"
    consider "i < j - 1" | "i = j - 1" | "i = j" using i by linarith
    then show "heap_read ?h2 (Some (m + i)) = Inr (N (Suc j) i)"
    proof cases
      case 1
      then have "heap_read h (Some (m + i)) = Inr (N j i)" "m + i \<noteq> m + j - 1" "m + i < length h"
        using Suc.prems(3,5) by auto
      then show ?thesis
        using 1 by (auto simp: heap_read_update_other heap_read_append N_def)
    next
      case 2
      then show ?thesis
        using Suc.prems(2,3) by (auto simp: heap_read_update_same N_def)
    next
      case 3
      have "heap_read ?h1 (Some (length h)) = Inr ?new" by simp
      moreover have "length h \<noteq> m + j - 1" using Suc.prems(2,3) by arith
      ultimately have "heap_read ?h2 (Some (length h)) = Inr ?new"
        by (metis heap_read_update_other)
      then show ?thesis
        using 3 Suc.prems(2,3) by (simp add: N_def)
    qed
  qed
  from Suc.IH [of "Suc j" ?h2, OF _ _ p3 p4 p5] Suc.prems(1,3)
  show ?case
    unfolding step by simp
qed

lemma DList_copy_nodes_repr:
  fixes h :: "'a DNode heap"
  assumes r: "DList_repr h other bs ys" and sz: "size_m l = size_m other"
    and nl: "head_m l = None" "tail_m l = None"
  shows "\<exists>h'. DList_copy_nodes h l other
           = Some (Inr (h', l\<lparr>head_m := nth_ptr [length h..<length h + length bs] 0,
                               tail_m := nth_ptr [length h..<length h + length bs] (length bs - 1)\<rparr>)) \<and>
           length h \<le> length h' \<and>
           (\<forall>a<length h. heap_read h' (Some a) = heap_read h (Some a)) \<and>
           (\<forall>i<length bs. heap_read h' (Some ([length h..<length h + length bs] ! i))
               = Inr (DList_link [length h..<length h + length bs] ys i))"
proof (cases "bs = []")
  case True
  then have "size_m l = 0" using sz DList_repr_fields(1) [OF r] by simp
  moreover have "l\<lparr>head_m := None, tail_m := None\<rparr> = l" using nl by simp
  ultimately show ?thesis
    using True by (simp add: DList_copy_nodes_def nth_ptr_def)
next
  case False
  let ?m = "length h" and ?n = "length bs"
  note f = DList_repr_fields [OF r]
  have n: "0 < ?n" using False by simp
  have other: "\<And>i. i < ?n \<Longrightarrow> heap_read h (Some (bs ! i)) = Inr (DList_link bs ys i)"
    using DList_reprD(1) [OF r] by simp
  have hd: "head_m other = Some (bs ! 0)" using f(4) n by (simp add: nth_ptr_def)
  let ?N = "\<lambda>j i. \<lparr>dvalue = ys ! i, dnext = (if Suc i < j then Some (?m + Suc i) else None),
                       dprevious = (if i = 0 then None else Some (?m + i - 1))\<rparr>"
  let ?h1 = "h @ [Some \<lparr>dvalue = ys ! 0, dnext = None, dprevious = None\<rparr>]"
  have "\<exists>h'. DList_copy_loop ?h1 (Some (?m + 1 - 1)) (Some (bs ! (1 - 1)))
                 = Some (Inr (h', Some (?m + ?n - 1))) \<and>
              length h' = ?m + ?n \<and>
              (\<forall>a<?m. heap_read h' (Some a) = heap_read h (Some a)) \<and>
              (\<forall>i<?n. heap_read h' (Some (?m + i)) = Inr (?N ?n i))"
    using n by (intro DList_copy_loop_linked [where k = "?n - 1"] other)
      (auto simp: heap_read_append)
  then obtain h' where h': "DList_copy_loop ?h1 (Some ?m) (Some (bs ! 0)) = Some (Inr (h', Some (?m + ?n - 1)))"
    "length h' = ?m + ?n" "\<forall>a<?m. heap_read h' (Some a) = heap_read h (Some a)"
    "\<forall>i<?n. heap_read h' (Some (?m + i)) = Inr (?N ?n i)"
    by auto
  have e: "DList_copy_nodes h l other = Some (Inr (h', l\<lparr>head_m := Some ?m, tail_m := Some (?m + ?n - 1)\<rparr>))"
    using n sz f(1) other [OF n] h'(1) by (simp add: DList_copy_nodes_def hd DList_link_def)
  have hp: "nth_ptr [?m..<?m + ?n] 0 = Some ?m"
    using n by (simp add: nth_ptr_def)
  have n1: "1 \<le> ?n" using False by (cases bs) simp_all
  have n2: "?n - 1 < ?n" using False by (cases bs) simp_all
  have e1: "[?m..<?m + ?n] ! (?n - 1) = ?m + (?n - 1)" using n2 by (simp only: nth_upt)
  have e2: "?m + (?n - 1) = ?m + ?n - 1" by (rule Nat.add_diff_assoc [OF n1])
  have "?n - 1 < length [?m..<?m + ?n]" using n2 by (simp only: length_upt add_diff_cancel_left')
  then have "nth_ptr [?m..<?m + ?n] (?n - 1) = Some ([?m..<?m + ?n] ! (?n - 1))"
    by (rule nth_ptr_simps(1))
  then have tp: "nth_ptr [?m..<?m + ?n] (?n - 1) = Some (?m + ?n - 1)"
    by (simp only: e1 e2)
  have "heap_read h' (Some ([?m..<?m + ?n] ! i)) = Inr (DList_link [?m..<?m + ?n] ys i)"
    if "i < ?n" for i
    using that h'(4) by (auto simp: DList_link_def nth_ptr_def)
  then show ?thesis
    unfolding hp tp using e h'(2,3) by simp
qed

lemma List_repr_frame:
  assumes "List_repr h l as xs"
    and "\<And>a. a \<in> set as \<Longrightarrow> heap_read h' (Some a) = heap_read h (Some a)"
  shows "List_repr h' l as xs"
  using assms by (auto simp: List_repr_iff)

lemma List_copy_loop_linked:
  fixes h0 :: "'a SNode heap"
  assumes other: "\<And>i. i < length bs \<Longrightarrow> heap_read h0 (Some (bs ! i)) = Inr (List_link bs ys i)"
  defines "m \<equiv> length h0"
  defines "N \<equiv> \<lambda>j i. \<lparr>svalue = ys ! i, snext = (if Suc i < j then Some (m + Suc i) else None)\<rparr>"
  shows "j + k = length bs \<Longrightarrow> 0 < j \<Longrightarrow> length h = m + j \<Longrightarrow>
         (\<forall>a<m. heap_read h (Some a) = heap_read h0 (Some a)) \<Longrightarrow>
         (\<forall>i<j. heap_read h (Some (m + i)) = Inr (N j i)) \<Longrightarrow>
         \<exists>h'. List_copy_loop h (Some (m + j - 1)) (Some (bs ! (j - 1)))
                 = Some (Inr (h', Some (m + length bs - 1))) \<and>
              length h' = m + length bs \<and>
              (\<forall>a<m. heap_read h' (Some a) = heap_read h0 (Some a)) \<and>
              (\<forall>i<length bs. heap_read h' (Some (m + i)) = Inr (N (length bs) i))"
proof (induction k arbitrary: j h)
  case 0
  then have j: "j = length bs" "j - 1 < length bs" by simp_all
  have b: "bs ! (j - 1) < m"
    using other [OF j(2)] by (simp add: heap_read_Inr_iff m_def)
  have "heap_read h (Some (bs ! (j - 1))) = Inr (List_link bs ys (j - 1))"
    using other [OF j(2)] "0.prems"(4) b by simp
  moreover have "snext (List_link bs ys (j - 1)) = None"
    using j "0.prems"(2) by (simp add: List_link_def nth_ptr_def)
  ultimately have "List_copy_loop h (Some (m + j - 1)) (Some (bs ! (j - 1))) = Some (Inr (h, Some (m + j - 1)))"
    by (subst List_copy_loop.simps) simp
  then show ?case
    using "0.prems" j by simp
next
  case (Suc k)
  then have j: "j < length bs" "j - 1 < length bs" "Suc (j - 1) = j" by simp_all
  have b: "bs ! (j - 1) < m" "bs ! j < m"
    using other [OF j(2)] other [OF j(1)] by (simp_all add: heap_read_Inr_iff m_def)
  have r0: "heap_read h (Some (bs ! (j - 1))) = Inr (List_link bs ys (j - 1))"
    using other [OF j(2)] Suc.prems(4) b by simp
  have n0: "snext (List_link bs ys (j - 1)) = Some (bs ! j)"
    using j by (simp add: List_link_def nth_ptr_def)
  have r1: "heap_read h (Some (bs ! j)) = Inr (List_link bs ys j)"
    using other [OF j(1)] Suc.prems(4) b by simp
  let ?new = "\<lparr>svalue = ys ! j, snext = None\<rparr>"
  let ?h1 = "h @ [Some ?new]"
  let ?h2 = "?h1[m + j - 1 := Some ((N j (j - 1))\<lparr>snext := Some (m + j)\<rparr>)]"
  have jj: "j - 1 < j" using Suc.prems(2) by arith
  have e1: "m + j - 1 = m + (j - 1)" using Suc.prems(2) by arith
  have "heap_read h (Some (m + (j - 1))) = Inr (N j (j - 1))"
    using Suc.prems(5) [rule_format, OF jj] .
  moreover have "m + (j - 1) < length h"
    using Suc.prems(3) jj by arith
  ultimately have rc: "heap_read ?h1 (Some (m + j - 1)) = Inr (N j (j - 1))"
    unfolding e1 by (simp only: heap_read_append)
  have w: "heap_write ?h1 (Some (m + j - 1)) (\<lambda>n. n\<lparr>snext := Some (length h)\<rparr>) = Inr ?h2"
    using heap_write_live [OF rc] Suc.prems(3) by simp
  have step: "List_copy_loop h (Some (m + j - 1)) (Some (bs ! (j - 1)))
                = List_copy_loop ?h2 (Some (length h)) (Some (bs ! j))"
    using r0 n0 r1 w by (subst List_copy_loop.simps) (simp add: List_link_def)
  have p3: "length ?h2 = m + Suc j" using Suc.prems(3) by simp
  have p4: "\<forall>a<m. heap_read ?h2 (Some a) = heap_read h0 (Some a)"
    using Suc.prems(2,3,4) by (simp add: heap_read_update_other heap_read_append)
  have p5: "\<forall>i<Suc j. heap_read ?h2 (Some (m + i)) = Inr (N (Suc j) i)"
  proof (intro allI impI)
    fix i assume i: "i < Suc j"
    consider "i < j - 1" | "i = j - 1" | "i = j" using i by linarith
    then show "heap_read ?h2 (Some (m + i)) = Inr (N (Suc j) i)"
    proof cases
      case 1
      then have "heap_read h (Some (m + i)) = Inr (N j i)" "m + i \<noteq> m + j - 1" "m + i < length h"
        using Suc.prems(3,5) by auto
      then show ?thesis
        using 1 by (auto simp: heap_read_update_other heap_read_append N_def)
    next
      case 2
      then show ?thesis
        using Suc.prems(2,3) by (auto simp: heap_read_update_same N_def)
    next
      case 3
      have "heap_read ?h1 (Some (length h)) = Inr ?new" by simp
      moreover have "length h \<noteq> m + j - 1" using Suc.prems(2,3) by arith
      ultimately have "heap_read ?h2 (Some (length h)) = Inr ?new"
        by (metis heap_read_update_other)
      then show ?thesis
        using 3 Suc.prems(2,3) by (simp add: N_def)
    qed
  qed
  from Suc.IH [of "Suc j" ?h2, OF _ _ p3 p4 p5] Suc.prems(1,3)
  show ?case
    unfolding step by simp
qed

lemma List_copy_nodes_repr:
  fixes h :: "'a SNode heap"
  assumes r: "List_repr h other bs ys" and sz: "size_m l = size_m other"
    and nl: "head_m l = None" "tail_m l = None"
  shows "\<exists>h'. List_copy_nodes h l other
           = Some (Inr (h', l\<lparr>head_m := nth_ptr [length h..<length h + length bs] 0,
                               tail_m := nth_ptr [length h..<length h + length bs] (length bs - 1)\<rparr>)) \<and>
           length h \<le> length h' \<and>
           (\<forall>a<length h. heap_read h' (Some a) = heap_read h (Some a)) \<and>
           (\<forall>i<length bs. heap_read h' (Some ([length h..<length h + length bs] ! i))
               = Inr (List_link [length h..<length h + length bs] ys i))"
proof (cases "bs = []")
  case True
  then have "size_m l = 0" using sz List_repr_fields(1) [OF r] by simp
  moreover have "l\<lparr>head_m := None, tail_m := None\<rparr> = l" using nl by simp
  ultimately show ?thesis
    using True by (simp add: List_copy_nodes_def nth_ptr_def)
next
  case False
  let ?m = "length h" and ?n = "length bs"
  note f = List_repr_fields [OF r]
  have n: "0 < ?n" using False by simp
  have other: "\<And>i. i < ?n \<Longrightarrow> heap_read h (Some (bs ! i)) = Inr (List_link bs ys i)"
    using List_reprD(1) [OF r] by simp
  have hd: "head_m other = Some (bs ! 0)" using f(4) n by (simp add: nth_ptr_def)
  let ?N = "\<lambda>j i. \<lparr>svalue = ys ! i, snext = (if Suc i < j then Some (?m + Suc i) else None)\<rparr>"
  let ?h1 = "h @ [Some \<lparr>svalue = ys ! 0, snext = None\<rparr>]"
  have "\<exists>h'. List_copy_loop ?h1 (Some (?m + 1 - 1)) (Some (bs ! (1 - 1)))
                 = Some (Inr (h', Some (?m + ?n - 1))) \<and>
              length h' = ?m + ?n \<and>
              (\<forall>a<?m. heap_read h' (Some a) = heap_read h (Some a)) \<and>
              (\<forall>i<?n. heap_read h' (Some (?m + i)) = Inr (?N ?n i))"
    using n by (intro List_copy_loop_linked [where k = "?n - 1"] other)
      (auto simp: heap_read_append)
  then obtain h' where h': "List_copy_loop ?h1 (Some ?m) (Some (bs ! 0)) = Some (Inr (h', Some (?m + ?n - 1)))"
    "length h' = ?m + ?n" "\<forall>a<?m. heap_read h' (Some a) = heap_read h (Some a)"
    "\<forall>i<?n. heap_read h' (Some (?m + i)) = Inr (?N ?n i)"
    by auto
  have e: "List_copy_nodes h l other = Some (Inr (h', l\<lparr>head_m := Some ?m, tail_m := Some (?m + ?n - 1)\<rparr>))"
    using n sz f(1) other [OF n] h'(1) by (simp add: List_copy_nodes_def hd List_link_def)
  have hp: "nth_ptr [?m..<?m + ?n] 0 = Some ?m"
    using n by (simp add: nth_ptr_def)
  have n1: "1 \<le> ?n" using False by (cases bs) simp_all
  have n2: "?n - 1 < ?n" using False by (cases bs) simp_all
  have e1: "[?m..<?m + ?n] ! (?n - 1) = ?m + (?n - 1)" using n2 by (simp only: nth_upt)
  have e2: "?m + (?n - 1) = ?m + ?n - 1" by (rule Nat.add_diff_assoc [OF n1])
  have "?n - 1 < length [?m..<?m + ?n]" using n2 by (simp only: length_upt add_diff_cancel_left')
  then have "nth_ptr [?m..<?m + ?n] (?n - 1) = Some ([?m..<?m + ?n] ! (?n - 1))"
    by (rule nth_ptr_simps(1))
  then have tp: "nth_ptr [?m..<?m + ?n] (?n - 1) = Some (?m + ?n - 1)"
    by (simp only: e1 e2)
  have "heap_read h' (Some ([?m..<?m + ?n] ! i)) = Inr (List_link [?m..<?m + ?n] ys i)"
    if "i < ?n" for i
    using that h'(4) by (auto simp: List_link_def nth_ptr_def)
  then show ?thesis
    unfolding hp tp using e h'(2,3) by simp
qed

subsection \<open>Every operation keeps the class invariant\<close>

lemma DList_copy_nodes_inv:
  fixes h :: "'a DNode heap"
  assumes i: "DList_inv h other" and sz: "size_m l = size_m other"
    and nl: "head_m l = None" "tail_m l = None"
  shows "\<exists>h' l'. DList_copy_nodes h l other = Some (Inr (h', l')) \<and> DList_inv h' l' \<and>
           DList_values h' l' = DList_values h other \<and>
           length h \<le> length h' \<and> (\<forall>a<length h. heap_read h' (Some a) = heap_read h (Some a))"
proof -
  note r = DList_inv_repr [OF i]
  let ?bs = "DList_addrs h other" and ?ys = "DList_values h other"
  let ?cs = "[length h..<length h + length ?bs]"
  let ?l' = "l\<lparr>head_m := nth_ptr ?cs 0, tail_m := nth_ptr ?cs (length ?bs - 1)\<rparr>"
  from DList_copy_nodes_repr [OF r sz nl] obtain h' where
    h': "DList_copy_nodes h l other = Some (Inr (h', ?l'))" "length h \<le> length h'"
    "\<forall>a<length h. heap_read h' (Some a) = heap_read h (Some a)"
    "\<forall>i<length ?bs. heap_read h' (Some (?cs ! i)) = Inr (DList_link ?cs ?ys i)"
    by blast
  have "DList_repr h' ?l' ?cs ?ys"
    using h'(4) sz DList_repr_fields(1,2) [OF r] by (simp add: DList_repr_iff)
  then show ?thesis
    using h' DList_repr_inv(1,2) by blast
qed

lemma List_copy_nodes_inv:
  fixes h :: "'a SNode heap"
  assumes i: "List_inv h other" and sz: "size_m l = size_m other"
    and nl: "head_m l = None" "tail_m l = None"
  shows "\<exists>h' l'. List_copy_nodes h l other = Some (Inr (h', l')) \<and> List_inv h' l' \<and>
           List_values h' l' = List_values h other \<and>
           length h \<le> length h' \<and> (\<forall>a<length h. heap_read h' (Some a) = heap_read h (Some a))"
proof -
  note r = List_inv_repr [OF i]
  let ?bs = "List_addrs h other" and ?ys = "List_values h other"
  let ?cs = "[length h..<length h + length ?bs]"
  let ?l' = "l\<lparr>head_m := nth_ptr ?cs 0, tail_m := nth_ptr ?cs (length ?bs - 1)\<rparr>"
  from List_copy_nodes_repr [OF r sz nl] obtain h' where
    h': "List_copy_nodes h l other = Some (Inr (h', ?l'))" "length h \<le> length h'"
    "\<forall>a<length h. heap_read h' (Some a) = heap_read h (Some a)"
    "\<forall>i<length ?bs. heap_read h' (Some (?cs ! i)) = Inr (List_link ?cs ?ys i)"
    by blast
  have "List_repr h' ?l' ?cs ?ys"
    using h'(4) sz List_repr_fields(1,2) [OF r] by (simp add: List_repr_iff)
  then show ?thesis
    using h' List_repr_inv(1,2) by blast
qed

lemma DList_inv_frame:
  assumes "DList_inv h l" and "\<forall>a<length h. heap_read h' (Some a) = heap_read h (Some a)"
  shows "DList_inv h' l"
proof -
  note r = DList_inv_repr [OF assms(1)]
  have "DList_repr h' l (DList_addrs h l) (DList_values h l)"
  proof (rule DList_repr_frame [OF r])
    fix a assume "a \<in> set (DList_addrs h l)"
    then have "a < length h"
      using DList_reprD(2) [OF r] by (auto simp: in_set_conv_nth)
    then show "heap_read h' (Some a) = heap_read h (Some a)" using assms(2) by simp
  qed
  then show ?thesis by (rule DList_repr_inv(1))
qed

lemma List_inv_frame:
  assumes "List_inv h l" and "\<forall>a<length h. heap_read h' (Some a) = heap_read h (Some a)"
  shows "List_inv h' l"
proof -
  note r = List_inv_repr [OF assms(1)]
  have "List_repr h' l (List_addrs h l) (List_values h l)"
  proof (rule List_repr_frame [OF r])
    fix a assume "a \<in> set (List_addrs h l)"
    then have "a < length h"
      using List_reprD(2) [OF r] by (auto simp: in_set_conv_nth)
    then show "heap_read h' (Some a) = heap_read h (Some a)" using assms(2) by simp
  qed
  then show ?thesis by (rule List_repr_inv(1))
qed

lemma DList_inv_empty: "DList_inv h \<lparr>head_m = None, tail_m = None, size_m = 0\<rparr>"
  by (rule DList_repr_inv(1) [OF DList_repr_empty])

lemma List_inv_empty: "List_inv h \<lparr>head_m = None, tail_m = None, size_m = 0\<rparr>"
  by (rule List_repr_inv(1) [OF List_repr_empty])

lemma DList_clear_inv:
  assumes i: "DList_inv h l"
  shows "\<exists>h'. DList_clear h l = Inr (h', l\<lparr>head_m := None, tail_m := None, size_m := 0\<rparr>) \<and>
           length h' = length h \<and>
           (\<forall>a. a \<notin> set (DList_addrs h l) \<longrightarrow> heap_read h' (Some a) = heap_read h (Some a))"
proof -
  note r = DList_inv_repr [OF i]
  from DList_clear_repr [OF r] obtain h' l' where
    c: "DList_clear h l = Inr (h', l')" "length h' = length h"
    "\<forall>a. a \<notin> set (DList_addrs h l) \<longrightarrow> heap_read h' (Some a) = heap_read h (Some a)"
    by blast
  have "l' = l\<lparr>head_m := None, tail_m := None, size_m := 0\<rparr>"
    using c(1) DList_repr_fields(1,4,5) [OF r]
    by (auto simp: DList_clear_def nth_ptr_def ebind_def split: if_splits sum.splits)
  then show ?thesis using c by simp
qed

lemma List_clear_inv:
  assumes i: "List_inv h l"
  shows "\<exists>h'. List_clear h l = Inr (h', l\<lparr>head_m := None, tail_m := None, size_m := 0\<rparr>) \<and>
           length h' = length h \<and>
           (\<forall>a. a \<notin> set (List_addrs h l) \<longrightarrow> heap_read h' (Some a) = heap_read h (Some a))"
proof -
  note r = List_inv_repr [OF i]
  from List_clear_repr [OF r] obtain h' l' where
    c: "List_clear h l = Inr (h', l')" "length h' = length h"
    "\<forall>a. a \<notin> set (List_addrs h l) \<longrightarrow> heap_read h' (Some a) = heap_read h (Some a)"
    by blast
  have "l' = l\<lparr>head_m := None, tail_m := None, size_m := 0\<rparr>"
    using c(1) List_repr_fields(1,4,5) [OF r]
    by (auto simp: List_clear_def nth_ptr_def ebind_def split: if_splits sum.splits)
  then show ?thesis using c by simp
qed

lemma repr_Container_invariants:
  assumes sz: "size_m l = length as" and d: "distinct as"
    and hd: "head_m l = nth_ptr as 0" and tl: "tail_m l = nth_ptr as (length as - 1)"
  shows "Container_invariants l"
proof (cases "as = []")
  case True
  then show ?thesis using sz hd tl by (simp add: Container_invariants_def nth_ptr_def)
next
  case False
  then have n: "0 < length as" "length as - 1 < length as" by simp_all
  have e: "(as ! 0 = as ! (length as - 1)) = (0 = length as - 1)"
    by (rule nth_eq_iff_index_eq [OF d n])
  have h: "head_m l = Some (as ! 0)" "tail_m l = Some (as ! (length as - 1))"
    using hd tl n by (simp_all add: nth_ptr_def)
  have a: "(length as = 1) = (0 = length as - 1)" using n(1) by arith
  have "(size_m l = 1) = (head_m l \<noteq> None \<and> head_m l = tail_m l)"
    unfolding h sz a using e by simp
  moreover have "(size_m l = 0) = (head_m l = None)" "(head_m l = None) = (tail_m l = None)"
    unfolding h sz using False by simp_all
  ultimately show ?thesis
    unfolding Container_invariants_def by blast
qed

lemma DList_inv_Container_invariants:
  assumes "DList_inv h l"
  shows "Container_invariants l"
proof -
  note f = DList_repr_fields [OF DList_inv_repr [OF assms]]
  show ?thesis
    by (rule repr_Container_invariants [OF f(1) f(3) f(4) f(5)])
qed

lemma List_inv_Container_invariants:
  assumes "List_inv h l"
  shows "Container_invariants l"
proof -
  note f = List_repr_fields [OF List_inv_repr [OF assms]]
  show ?thesis
    by (rule repr_Container_invariants [OF f(1) f(3) f(4) f(5)])
qed

lemma DList_inv_link_invariants:
  assumes i: "DList_inv h l"
  shows "DList_link_invariants h l"
proof -
  note r = DList_inv_repr [OF i]
  let ?as = "DList_addrs h l" and ?xs = "DList_values h l"
  note f = DList_repr_fields [OF r]
  have L: "\<forall>j<length ?as. heap_read h (Some (?as ! j)) = Inr (DList_link ?as ?xs j)"
    using DList_reprD(1) [OF r] by simp
  have c: "DList_chain h (head_m l) (size_m l) = map (\<lambda>j. (?as ! j, DList_link ?as ?xs j)) [0..<length ?as]"
    unfolding f(4) f(1) by (rule DList_chain_linked [OF L]) simp
  have 1: "list_all (\<lambda>(a, n). case dnext n of
                            None \<Rightarrow> True
                          | Some m \<Rightarrow> (case heap_read h (Some m) of
                                        Inl e \<Rightarrow> False
                                      | Inr nm \<Rightarrow> dprevious nm = Some a))
       (DList_chain h (head_m l) (size_m l))"
    unfolding c using L by (auto simp: list_all_iff DList_link_def nth_ptr_def)
  have 2: "(case head_m l of
        None \<Rightarrow> True
      | Some a \<Rightarrow> (case heap_read h (Some a) of Inl e \<Rightarrow> False | Inr n \<Rightarrow> dprevious n = None))"
    unfolding f(4) using L by (auto simp: nth_ptr_def DList_link_def)
  have 3: "(case tail_m l of
        None \<Rightarrow> True
      | Some a \<Rightarrow> (case heap_read h (Some a) of Inl e \<Rightarrow> False | Inr n \<Rightarrow> dnext n = None))"
    unfolding f(5) using L by (auto simp: nth_ptr_def DList_link_def)
  show ?thesis
    unfolding DList_link_invariants_def using 1 2 3 by blast
qed

lemma DList_invariants_iff: "DList_invariants h l \<longleftrightarrow> DList_inv h l"
  using DList_inv_Container_invariants DList_inv_link_invariants
  by (auto simp: DList_invariants_def)

lemma List_invariants_iff: "List_invariants h l \<longleftrightarrow> List_inv h l"
  using List_inv_Container_invariants by (auto simp: List_invariants_def)

lemma DList_copy_ctor_inv:
  fixes h :: "'a DNode heap"
  assumes i: "DList_inv h other"
  shows "\<exists>h' l'. DList_copy_ctor h other = Some (Inr (h', l')) \<and> DList_inv h' l' \<and>
           DList_inv h' other \<and> DList_values h' l' = DList_values h other"
proof -
  from DList_copy_nodes_inv [OF i, of "\<lparr>head_m = None, tail_m = None, size_m = size_m other\<rparr>"]
  obtain h' l' where c: "DList_copy_ctor h other = Some (Inr (h', l'))" "DList_inv h' l'"
    "DList_values h' l' = DList_values h other"
    "\<forall>a<length h. heap_read h' (Some a) = heap_read h (Some a)"
    unfolding DList_copy_ctor_def by auto
  then show ?thesis using DList_inv_frame [OF i c(4)] by blast
qed

lemma List_copy_ctor_inv:
  fixes h :: "'a SNode heap"
  assumes i: "List_inv h other"
  shows "\<exists>h' l'. List_copy_ctor h other = Some (Inr (h', l')) \<and> List_inv h' l' \<and>
           List_inv h' other \<and> List_values h' l' = List_values h other"
proof -
  from List_copy_nodes_inv [OF i, of "\<lparr>head_m = None, tail_m = None, size_m = size_m other\<rparr>"]
  obtain h' l' where c: "List_copy_ctor h other = Some (Inr (h', l'))" "List_inv h' l'"
    "List_values h' l' = List_values h other"
    "\<forall>a<length h. heap_read h' (Some a) = heap_read h (Some a)"
    unfolding List_copy_ctor_def by auto
  then show ?thesis using List_inv_frame [OF i c(4)] by blast
qed

lemma DList_inv_after_clear:
  assumes io: "DList_inv h other"
    and dj: "set as \<inter> set (DList_addrs h other) = {}"
    and fr: "\<forall>a. a \<notin> set as \<longrightarrow> heap_read h1 (Some a) = heap_read h (Some a)"
  shows "DList_inv h1 other" and "DList_values h1 other = DList_values h other"
proof -
  note r = DList_inv_repr [OF io]
  have r1: "DList_repr h1 other (DList_addrs h other) (DList_values h other)"
    using dj fr by (intro DList_repr_frame [OF r]) auto
  show "DList_inv h1 other" "DList_values h1 other = DList_values h other"
    using DList_repr_inv(1,2) [OF r1] by simp_all
qed

lemma List_inv_after_clear:
  assumes io: "List_inv h other"
    and dj: "set as \<inter> set (List_addrs h other) = {}"
    and fr: "\<forall>a. a \<notin> set as \<longrightarrow> heap_read h1 (Some a) = heap_read h (Some a)"
  shows "List_inv h1 other" and "List_values h1 other = List_values h other"
proof -
  note r = List_inv_repr [OF io]
  have r1: "List_repr h1 other (List_addrs h other) (List_values h other)"
    using dj fr by (intro List_repr_frame [OF r]) auto
  show "List_inv h1 other" "List_values h1 other = List_values h other"
    using List_repr_inv(1,2) [OF r1] by simp_all
qed

lemma DList_copy_assign_inv:
  fixes h :: "'a DNode heap"
  assumes t: "this < length objs" and o: "other < length objs"
    and it: "DList_inv h (objs ! this)" and io: "DList_inv h (objs ! other)"
    and dj: "this = other \<or> set (DList_addrs h (objs ! this)) \<inter> set (DList_addrs h (objs ! other)) = {}"
  shows "\<exists>h' objs'. DList_copy_assign h objs this other = Some (Inr (h', objs')) \<and>
           DList_inv h' (objs' ! this) \<and> DList_inv h' (objs' ! other) \<and>
           DList_values h' (objs' ! this) = DList_values h (objs ! other)"
proof (cases "this = other")
  case True
  then show ?thesis using it by (simp add: DList_copy_assign_def)
next
  case False
  let ?l1 = "(objs ! this)\<lparr>head_m := None, tail_m := None, size_m := 0\<rparr>"
  from DList_clear_inv [OF it] obtain h1 where
    c: "DList_clear h (objs ! this) = Inr (h1, ?l1)" "length h1 = length h"
    "\<forall>a. a \<notin> set (DList_addrs h (objs ! this)) \<longrightarrow> heap_read h1 (Some a) = heap_read h (Some a)"
    by blast
  have dj': "set (DList_addrs h (objs ! this)) \<inter> set (DList_addrs h (objs ! other)) = {}"
    using dj False by simp
  note io1 = DList_inv_after_clear [OF io dj' c(3)]
  from DList_copy_nodes_inv [OF io1(1), of "?l1\<lparr>size_m := size_m (objs ! other)\<rparr>"]
  obtain h2 l2 where n: "DList_copy_nodes h1 (?l1\<lparr>size_m := size_m (objs ! other)\<rparr>) (objs ! other)
      = Some (Inr (h2, l2))" "DList_inv h2 l2" "DList_values h2 l2 = DList_values h1 (objs ! other)"
    "\<forall>a<length h1. heap_read h2 (Some a) = heap_read h1 (Some a)"
    by auto
  have "DList_copy_assign h objs this other = Some (Inr (h2, objs[this := l2]))"
    using False c(1) n(1) by (simp add: DList_copy_assign_def)
  moreover have "DList_inv h2 (objs ! other)"
    by (rule DList_inv_frame [OF io1(1) n(4)])
  ultimately show ?thesis
    using False t o n(2,3) io1(2) by simp
qed

lemma List_copy_assign_inv:
  fixes h :: "'a SNode heap"
  assumes t: "this < length objs" and o: "other < length objs"
    and it: "List_inv h (objs ! this)" and io: "List_inv h (objs ! other)"
    and dj: "this = other \<or> set (List_addrs h (objs ! this)) \<inter> set (List_addrs h (objs ! other)) = {}"
  shows "\<exists>h' objs'. List_copy_assign h objs this other = Some (Inr (h', objs')) \<and>
           List_inv h' (objs' ! this) \<and> List_inv h' (objs' ! other) \<and>
           List_values h' (objs' ! this) = List_values h (objs ! other)"
proof (cases "this = other")
  case True
  then show ?thesis using it by (simp add: List_copy_assign_def)
next
  case False
  let ?l1 = "(objs ! this)\<lparr>head_m := None, tail_m := None, size_m := 0\<rparr>"
  from List_clear_inv [OF it] obtain h1 where
    c: "List_clear h (objs ! this) = Inr (h1, ?l1)" "length h1 = length h"
    "\<forall>a. a \<notin> set (List_addrs h (objs ! this)) \<longrightarrow> heap_read h1 (Some a) = heap_read h (Some a)"
    by blast
  have dj': "set (List_addrs h (objs ! this)) \<inter> set (List_addrs h (objs ! other)) = {}"
    using dj False by simp
  note io1 = List_inv_after_clear [OF io dj' c(3)]
  from List_copy_nodes_inv [OF io1(1), of "?l1\<lparr>size_m := size_m (objs ! other)\<rparr>"]
  obtain h2 l2 where n: "List_copy_nodes h1 (?l1\<lparr>size_m := size_m (objs ! other)\<rparr>) (objs ! other)
      = Some (Inr (h2, l2))" "List_inv h2 l2" "List_values h2 l2 = List_values h1 (objs ! other)"
    "\<forall>a<length h1. heap_read h2 (Some a) = heap_read h1 (Some a)"
    by auto
  have "List_copy_assign h objs this other = Some (Inr (h2, objs[this := l2]))"
    using False c(1) n(1) by (simp add: List_copy_assign_def)
  moreover have "List_inv h2 (objs ! other)"
    by (rule List_inv_frame [OF io1(1) n(4)])
  ultimately show ?thesis
    using False t o n(2,3) io1(2) by simp
qed

lemma DList_move_assign_inv:
  fixes h :: "'a DNode heap"
  assumes t: "this < length objs" and o: "other < length objs"
    and it: "DList_inv h (objs ! this)" and io: "DList_inv h (objs ! other)"
    and dj: "this = other \<or> set (DList_addrs h (objs ! this)) \<inter> set (DList_addrs h (objs ! other)) = {}"
  shows "\<exists>h' objs'. DList_move_assign h objs this other = Inr (h', objs') \<and>
           DList_inv h' (objs' ! this) \<and> DList_inv h' (objs' ! other) \<and>
           DList_values h' (objs' ! this) = DList_values h (objs ! other)"
proof (cases "this = other")
  case True
  then show ?thesis using it by (simp add: DList_move_assign_def)
next
  case False
  let ?l1 = "(objs ! this)\<lparr>head_m := None, tail_m := None, size_m := 0\<rparr>"
  from DList_clear_inv [OF it] obtain h1 where
    c: "DList_clear h (objs ! this) = Inr (h1, ?l1)" "length h1 = length h"
    "\<forall>a. a \<notin> set (DList_addrs h (objs ! this)) \<longrightarrow> heap_read h1 (Some a) = heap_read h (Some a)"
    by blast
  have dj': "set (DList_addrs h (objs ! this)) \<inter> set (DList_addrs h (objs ! other)) = {}"
    using dj False by simp
  note io1 = DList_inv_after_clear [OF io dj' c(3)]
  let ?new = "?l1\<lparr>head_m := head_m (objs ! other), tail_m := tail_m (objs ! other),
                  size_m := size_m (objs ! other)\<rparr>"
  let ?old = "(objs ! other)\<lparr>head_m := None, tail_m := None, size_m := 0\<rparr>"
  have e: "DList_move_assign h objs this other = Inr (h1, objs[this := ?new, other := ?old])"
    using False c(1) by (simp add: DList_move_assign_def)
  have a1: "objs[this := ?new, other := ?old] ! this = objs ! other"
    using False t o by simp
  have a2: "objs[this := ?new, other := ?old] ! other = \<lparr>head_m = None, tail_m = None, size_m = 0\<rparr>"
    using o by simp
  show ?thesis
  proof (intro exI conjI)
    show "DList_move_assign h objs this other = Inr (h1, objs[this := ?new, other := ?old])"
      by (rule e)
    show "DList_inv h1 (objs[this := ?new, other := ?old] ! this)"
      unfolding a1 by (rule io1(1))
    show "DList_inv h1 (objs[this := ?new, other := ?old] ! other)"
      unfolding a2 by (rule DList_inv_empty)
    show "DList_values h1 (objs[this := ?new, other := ?old] ! this) = DList_values h (objs ! other)"
      unfolding a1 by (rule io1(2))
  qed
qed

lemma List_move_assign_inv:
  fixes h :: "'a SNode heap"
  assumes t: "this < length objs" and o: "other < length objs"
    and it: "List_inv h (objs ! this)" and io: "List_inv h (objs ! other)"
    and dj: "this = other \<or> set (List_addrs h (objs ! this)) \<inter> set (List_addrs h (objs ! other)) = {}"
  shows "\<exists>h' objs'. List_move_assign h objs this other = Inr (h', objs') \<and>
           List_inv h' (objs' ! this) \<and> List_inv h' (objs' ! other) \<and>
           List_values h' (objs' ! this) = List_values h (objs ! other)"
proof (cases "this = other")
  case True
  then show ?thesis using it by (simp add: List_move_assign_def)
next
  case False
  let ?l1 = "(objs ! this)\<lparr>head_m := None, tail_m := None, size_m := 0\<rparr>"
  from List_clear_inv [OF it] obtain h1 where
    c: "List_clear h (objs ! this) = Inr (h1, ?l1)" "length h1 = length h"
    "\<forall>a. a \<notin> set (List_addrs h (objs ! this)) \<longrightarrow> heap_read h1 (Some a) = heap_read h (Some a)"
    by blast
  have dj': "set (List_addrs h (objs ! this)) \<inter> set (List_addrs h (objs ! other)) = {}"
    using dj False by simp
  note io1 = List_inv_after_clear [OF io dj' c(3)]
  let ?new = "?l1\<lparr>head_m := head_m (objs ! other), tail_m := tail_m (objs ! other),
                  size_m := size_m (objs ! other)\<rparr>"
  let ?old = "(objs ! other)\<lparr>head_m := None, tail_m := None, size_m := 0\<rparr>"
  have e: "List_move_assign h objs this other = Inr (h1, objs[this := ?new, other := ?old])"
    using False c(1) by (simp add: List_move_assign_def)
  have a1: "objs[this := ?new, other := ?old] ! this = objs ! other"
    using False t o by simp
  have a2: "objs[this := ?new, other := ?old] ! other = \<lparr>head_m = None, tail_m = None, size_m = 0\<rparr>"
    using o by simp
  show ?thesis
  proof (intro exI conjI)
    show "List_move_assign h objs this other = Inr (h1, objs[this := ?new, other := ?old])"
      by (rule e)
    show "List_inv h1 (objs[this := ?new, other := ?old] ! this)"
      unfolding a1 by (rule io1(1))
    show "List_inv h1 (objs[this := ?new, other := ?old] ! other)"
      unfolding a2 by (rule List_inv_empty)
    show "List_values h1 (objs[this := ?new, other := ?old] ! this) = List_values h (objs ! other)"
      unfolding a1 by (rule io1(2))
  qed
qed

lemma DList_modifiers_inv:
  fixes h :: "'a DNode heap"
  assumes i: "DList_inv h l"
  shows "\<exists>h' l'. DList_push_back h l v = Inr (h', l') \<and> DList_inv h' l'"
    and "\<exists>h' l'. DList_push_front h l v = Inr (h', l') \<and> DList_inv h' l'"
    and "\<exists>h' l'. DList_pop_back h l = Inr (h', l') \<and> DList_inv h' l'"
    and "\<exists>h' l'. DList_pop_front h l = Inr (h', l') \<and> DList_inv h' l'"
    and "\<exists>h' l'. DList_insert h l index v = Inr (h', l') \<and> DList_inv h' l'"
    and "\<exists>h' l'. DList_remove h l index = Inr (h', l') \<and> DList_inv h' l'"
    and "\<exists>h' l'. DList_clear h l = Inr (h', l') \<and> DList_inv h' l'"
proof -
  note r = DList_inv_repr [OF i]
  show "\<exists>h' l'. DList_push_back h l v = Inr (h', l') \<and> DList_inv h' l'"
    using DList_push_back_repr [OF r, of v] DList_repr_inv(1) by blast
  show "\<exists>h' l'. DList_push_front h l v = Inr (h', l') \<and> DList_inv h' l'"
    using DList_push_front_repr [OF r, of v] DList_repr_inv(1) by blast
  show "\<exists>h' l'. DList_pop_back h l = Inr (h', l') \<and> DList_inv h' l'"
    using DList_pop_back_repr [OF r] DList_repr_inv(1) by blast
  show "\<exists>h' l'. DList_pop_front h l = Inr (h', l') \<and> DList_inv h' l'"
    using DList_pop_front_repr [OF r] DList_repr_inv(1) by blast
  show "\<exists>h' l'. DList_clear h l = Inr (h', l') \<and> DList_inv h' l'"
    using DList_clear_repr [OF r] DList_repr_inv(1) by blast
  show "\<exists>h' l'. DList_insert h l index v = Inr (h', l') \<and> DList_inv h' l'"
  proof (cases "index \<le> size_m l")
    case True
    then show ?thesis using DList_insert_values [OF i True, of v] by blast
  next
    case False
    then show ?thesis using i by (simp add: DList_insert_def)
  qed
  show "\<exists>h' l'. DList_remove h l index = Inr (h', l') \<and> DList_inv h' l'"
  proof (cases "index < size_m l")
    case True
    then show ?thesis using DList_remove_values [OF i True] by blast
  next
    case False
    then show ?thesis using i by (simp add: DList_remove_def)
  qed
qed

lemma List_modifiers_inv:
  fixes h :: "'a SNode heap"
  assumes i: "List_inv h l"
  shows "\<exists>h' l'. List_push_back h l v = Inr (h', l') \<and> List_inv h' l'"
    and "\<exists>h' l'. List_push_front h l v = Inr (h', l') \<and> List_inv h' l'"
    and "\<exists>h' l'. List_pop_back h l = Some (Inr (h', l')) \<and> List_inv h' l'"
    and "\<exists>h' l'. List_pop_front h l = Inr (h', l') \<and> List_inv h' l'"
    and "\<exists>h' l'. List_insert h l index v = Inr (h', l') \<and> List_inv h' l'"
    and "\<exists>h' l'. List_remove h l index = Some (Inr (h', l')) \<and> List_inv h' l'"
    and "\<exists>h' l'. List_clear h l = Inr (h', l') \<and> List_inv h' l'"
proof -
  note r = List_inv_repr [OF i]
  show "\<exists>h' l'. List_push_back h l v = Inr (h', l') \<and> List_inv h' l'"
    using List_push_back_repr [OF r, of v] List_repr_inv(1) by blast
  show "\<exists>h' l'. List_push_front h l v = Inr (h', l') \<and> List_inv h' l'"
    using List_push_front_repr [OF r, of v] List_repr_inv(1) by blast
  show "\<exists>h' l'. List_pop_back h l = Some (Inr (h', l')) \<and> List_inv h' l'"
    using List_pop_back_repr [OF r] List_repr_inv(1) by blast
  show "\<exists>h' l'. List_pop_front h l = Inr (h', l') \<and> List_inv h' l'"
    using List_pop_front_repr [OF r] List_repr_inv(1) by blast
  show "\<exists>h' l'. List_clear h l = Inr (h', l') \<and> List_inv h' l'"
    using List_clear_repr [OF r] List_repr_inv(1) by blast
  show "\<exists>h' l'. List_insert h l index v = Inr (h', l') \<and> List_inv h' l'"
  proof (cases "index \<le> size_m l")
    case True
    then show ?thesis using List_insert_values [OF i True, of v] by blast
  next
    case False
    then show ?thesis using i by (simp add: List_insert_def)
  qed
  show "\<exists>h' l'. List_remove h l index = Some (Inr (h', l')) \<and> List_inv h' l'"
  proof (cases "index < size_m l")
    case True
    then show ?thesis using List_remove_values [OF i True] by blast
  next
    case False
    then show ?thesis using i by (simp add: List_remove_def)
  qed
qed

lemma DList_operations_inv:
  fixes h :: "'a DNode heap"
  assumes i: "DList_inv h l"
  shows "(\<exists>h' l'. DList_push_back h l v = Inr (h', l') \<and> DList_inv h' l') \<and>
      (\<exists>h' l'. DList_push_front h l v = Inr (h', l') \<and> DList_inv h' l') \<and>
      (\<exists>h' l'. DList_pop_back h l = Inr (h', l') \<and> DList_inv h' l') \<and>
      (\<exists>h' l'. DList_pop_front h l = Inr (h', l') \<and> DList_inv h' l') \<and>
      (\<exists>h' l'. DList_insert h l index v = Inr (h', l') \<and> DList_inv h' l') \<and>
      (\<exists>h' l'. DList_remove h l index = Inr (h', l') \<and> DList_inv h' l') \<and>
      (\<exists>h' l'. DList_clear h l = Inr (h', l') \<and> DList_inv h' l') \<and>
      (\<exists>h' l'. DList_copy_ctor h l = Some (Inr (h', l')) \<and> DList_inv h' l' \<and> DList_inv h' l) \<and>
      DList_inv h (fst (DList_move_ctor l)) \<and>
      DList_inv h (snd (DList_move_ctor l))"
proof -
  have "fst (DList_move_ctor l) = l"
    "snd (DList_move_ctor l) = \<lparr>head_m = None, tail_m = None, size_m = 0\<rparr>"
    by (simp_all add: DList_move_ctor_def)
  then have "DList_inv h (fst (DList_move_ctor l))" "DList_inv h (snd (DList_move_ctor l))"
    using i DList_inv_empty [of h] by simp_all
  moreover have "\<exists>h' l'. DList_copy_ctor h l = Some (Inr (h', l')) \<and> DList_inv h' l' \<and> DList_inv h' l"
    using DList_copy_ctor_inv [OF i] by blast
  ultimately show ?thesis
    using DList_modifiers_inv [OF i] by (intro conjI)
qed

lemma List_operations_inv:
  fixes h :: "'a SNode heap"
  assumes i: "List_inv h l"
  shows "(\<exists>h' l'. List_push_back h l v = Inr (h', l') \<and> List_inv h' l') \<and>
      (\<exists>h' l'. List_push_front h l v = Inr (h', l') \<and> List_inv h' l') \<and>
      (\<exists>h' l'. List_pop_back h l = Some (Inr (h', l')) \<and> List_inv h' l') \<and>
      (\<exists>h' l'. List_pop_front h l = Inr (h', l') \<and> List_inv h' l') \<and>
      (\<exists>h' l'. List_insert h l index v = Inr (h', l') \<and> List_inv h' l') \<and>
      (\<exists>h' l'. List_remove h l index = Some (Inr (h', l')) \<and> List_inv h' l') \<and>
      (\<exists>h' l'. List_clear h l = Inr (h', l') \<and> List_inv h' l') \<and>
      (\<exists>h' l'. List_copy_ctor h l = Some (Inr (h', l')) \<and> List_inv h' l' \<and> List_inv h' l) \<and>
      List_inv h (fst (List_move_ctor l)) \<and>
      List_inv h (snd (List_move_ctor l))"
proof -
  have "fst (List_move_ctor l) = l"
    "snd (List_move_ctor l) = \<lparr>head_m = None, tail_m = None, size_m = 0\<rparr>"
    by (simp_all add: List_move_ctor_def)
  then have "List_inv h (fst (List_move_ctor l))" "List_inv h (snd (List_move_ctor l))"
    using i List_inv_empty [of h] by simp_all
  moreover have "\<exists>h' l'. List_copy_ctor h l = Some (Inr (h', l')) \<and> List_inv h' l' \<and> List_inv h' l"
    using List_copy_ctor_inv [OF i] by blast
  ultimately show ?thesis
    using List_modifiers_inv [OF i] by (intro conjI)
qed

lemma DList_assignments_inv:
  fixes h :: "'a DNode heap"
  assumes "this < length objs" "other < length objs" "DList_inv h (objs ! this)"
    "DList_inv h (objs ! other)"
    "this = other \<or> set (DList_addrs h (objs ! this)) \<inter> set (DList_addrs h (objs ! other)) = {}"
  shows "(\<exists>h' objs'. DList_copy_assign h objs this other = Some (Inr (h', objs')) \<and>
         DList_inv h' (objs' ! this) \<and> DList_inv h' (objs' ! other)) \<and>
      (\<exists>h' objs'. DList_move_assign h objs this other = Inr (h', objs') \<and>
         DList_inv h' (objs' ! this) \<and> DList_inv h' (objs' ! other))"
  using DList_copy_assign_inv [OF assms] DList_move_assign_inv [OF assms] by blast

lemma List_assignments_inv:
  fixes h :: "'a SNode heap"
  assumes "this < length objs" "other < length objs" "List_inv h (objs ! this)"
    "List_inv h (objs ! other)"
    "this = other \<or> set (List_addrs h (objs ! this)) \<inter> set (List_addrs h (objs ! other)) = {}"
  shows "(\<exists>h' objs'. List_copy_assign h objs this other = Some (Inr (h', objs')) \<and>
         List_inv h' (objs' ! this) \<and> List_inv h' (objs' ! other)) \<and>
      (\<exists>h' objs'. List_move_assign h objs this other = Inr (h', objs') \<and>
         List_inv h' (objs' ! this) \<and> List_inv h' (objs' ! other))"
  using List_copy_assign_inv [OF assms] List_move_assign_inv [OF assms] by blast

lemma empty_container_inv: "DList_inv h empty_container" "List_inv hs empty_container"
  unfolding empty_container_def by (rule DList_inv_empty, rule List_inv_empty)

text \<open>
  Claim C5, as amended. The default-constructed container is well formed, and every public
  mutating operation (\<open>push_back\<close>, \<open>push_front\<close>, \<open>pop_back\<close>, \<open>pop_front\<close>, \<open>insert\<close>,
  \<open>remove\<close>, \<open>clear\<close>, copy and move construction, copy and move assignment), applied to
  well-formed containers that share no node with one another, returns normally and
  leaves every container involved well formed. A well-formed container satisfies
  \<open>size == 0\<close> iff head is absent iff tail is absent; \<open>size == 1\<close> iff head is present and
  \<open>head == tail\<close>; and, doubly linked, \<open>m.previous == n\<close> for every node \<open>n\<close> with
  \<open>n.next = m\<close> present, \<open>head.previous\<close> absent and \<open>tail.next\<close> absent: these
  are conjuncts of \<open>DList_invariants\<close> and of \<open>List_invariants\<close>.
\<close>

theorem invariants_preserved:
  fixes h :: "'a DNode heap" and hs :: "'b SNode heap"
  shows
  "DList_invariants h empty_container \<and> List_invariants hs empty_container \<and>
   (DList_invariants h l \<longrightarrow>
      (\<exists>h' l'. DList_push_back h l v = Inr (h', l') \<and> DList_invariants h' l') \<and>
      (\<exists>h' l'. DList_push_front h l v = Inr (h', l') \<and> DList_invariants h' l') \<and>
      (\<exists>h' l'. DList_pop_back h l = Inr (h', l') \<and> DList_invariants h' l') \<and>
      (\<exists>h' l'. DList_pop_front h l = Inr (h', l') \<and> DList_invariants h' l') \<and>
      (\<exists>h' l'. DList_insert h l index v = Inr (h', l') \<and> DList_invariants h' l') \<and>
      (\<exists>h' l'. DList_remove h l index = Inr (h', l') \<and> DList_invariants h' l') \<and>
      (\<exists>h' l'. DList_clear h l = Inr (h', l') \<and> DList_invariants h' l') \<and>
      (\<exists>h' l'. DList_copy_ctor h l = Some (Inr (h', l')) \<and> DList_invariants h' l' \<and>
         DList_invariants h' l) \<and>
      DList_invariants h (fst (DList_move_ctor l)) \<and>
      DList_invariants h (snd (DList_move_ctor l))) \<and>
   (this < length objs \<and> other < length objs \<and>
    DList_invariants h (objs ! this) \<and> DList_invariants h (objs ! other) \<and>
    (this = other \<or>
       set (DList_addrs h (objs ! this)) \<inter> set (DList_addrs h (objs ! other)) = {}) \<longrightarrow>
      (\<exists>h' objs'. DList_copy_assign h objs this other = Some (Inr (h', objs')) \<and>
         DList_invariants h' (objs' ! this) \<and> DList_invariants h' (objs' ! other)) \<and>
      (\<exists>h' objs'. DList_move_assign h objs this other = Inr (h', objs') \<and>
         DList_invariants h' (objs' ! this) \<and> DList_invariants h' (objs' ! other))) \<and>
   (List_invariants hs ls \<longrightarrow>
      (\<exists>h' l'. List_push_back hs ls w = Inr (h', l') \<and> List_invariants h' l') \<and>
      (\<exists>h' l'. List_push_front hs ls w = Inr (h', l') \<and> List_invariants h' l') \<and>
      (\<exists>h' l'. List_pop_back hs ls = Some (Inr (h', l')) \<and> List_invariants h' l') \<and>
      (\<exists>h' l'. List_pop_front hs ls = Inr (h', l') \<and> List_invariants h' l') \<and>
      (\<exists>h' l'. List_insert hs ls index w = Inr (h', l') \<and> List_invariants h' l') \<and>
      (\<exists>h' l'. List_remove hs ls index = Some (Inr (h', l')) \<and> List_invariants h' l') \<and>
      (\<exists>h' l'. List_clear hs ls = Inr (h', l') \<and> List_invariants h' l') \<and>
      (\<exists>h' l'. List_copy_ctor hs ls = Some (Inr (h', l')) \<and> List_invariants h' l' \<and>
         List_invariants h' ls) \<and>
      List_invariants hs (fst (List_move_ctor ls)) \<and>
      List_invariants hs (snd (List_move_ctor ls))) \<and>
   (sthis < length sobjs \<and> sother < length sobjs \<and>
    List_invariants hs (sobjs ! sthis) \<and> List_invariants hs (sobjs ! sother) \<and>
    (sthis = sother \<or>
       set (List_addrs hs (sobjs ! sthis)) \<inter> set (List_addrs hs (sobjs ! sother)) = {}) \<longrightarrow>
      (\<exists>h' objs'. List_copy_assign hs sobjs sthis sother = Some (Inr (h', objs')) \<and>
         List_invariants h' (objs' ! sthis) \<and> List_invariants h' (objs' ! sother)) \<and>
      (\<exists>h' objs'. List_move_assign hs sobjs sthis sother = Inr (h', objs') \<and>
         List_invariants h' (objs' ! sthis) \<and> List_invariants h' (objs' ! sother)))"
  unfolding DList_invariants_iff List_invariants_iff
  by (intro conjI;
      (rule empty_container_inv
       | (rule impI, (elim conjE)?,
          (rule DList_operations_inv List_operations_inv DList_assignments_inv
             List_assignments_inv; assumption))))

text \<open>
  Read word for word, the second invariant of the specification fails on every empty
  container, where \<open>head == tail\<close> holds (both are null) and \<open>size\<close> is 0: \<open>clear()\<close> takes
  a three-element list that satisfies the stated invariants to a state that violates them.
\<close>

theorem invariants_as_stated_counterexample:
  "Container_invariants_stated example_container \<and>
   DList_inv DList_example_heap example_container \<and>
   DList_clear DList_example_heap example_container = Inr ([None, None, None], empty_container) \<and>
   List_inv List_example_heap example_container \<and>
   List_clear List_example_heap example_container = Inr ([None, None, None], empty_container) \<and>
   \<not> Container_invariants_stated empty_container"
  by code_simp

theorem invariants_preserved_witness:
  "DList_invariants DList_example_heap example_container \<and>
   (\<exists>h' l'. DList_pop_back DList_example_heap example_container = Inr (h', l') \<and>
      DList_invariants h' l') \<and>
   (\<exists>h' l'. DList_copy_ctor DList_example_heap example_container = Some (Inr (h', l')) \<and>
      DList_invariants h' l' \<and> DList_invariants h' example_container) \<and>
   (1::nat) < length example_objects \<and> (0::nat) < length example_objects \<and>
   DList_invariants DList_example_heap (example_objects ! 1) \<and>
   DList_invariants DList_example_heap (example_objects ! 0) \<and>
   set (DList_addrs DList_example_heap (example_objects ! 1))
     \<inter> set (DList_addrs DList_example_heap (example_objects ! 0)) = {} \<and>
   (\<exists>h' objs'. DList_copy_assign DList_example_heap example_objects 1 0 = Some (Inr (h', objs')) \<and>
      DList_invariants h' (objs' ! 1) \<and> DList_invariants h' (objs' ! 0)) \<and>
   List_invariants List_example_heap example_container \<and>
   (\<exists>h' l'. List_pop_back List_example_heap example_container = Some (Inr (h', l')) \<and>
      List_invariants h' l') \<and>
   List_invariants List_example_heap (example_objects ! 1) \<and>
   List_invariants List_example_heap (example_objects ! 0) \<and>
   set (List_addrs List_example_heap (example_objects ! 1))
     \<inter> set (List_addrs List_example_heap (example_objects ! 0)) = {} \<and>
   (\<exists>h' objs'. List_move_assign List_example_heap example_objects 1 0 = Inr (h', objs') \<and>
      List_invariants h' (objs' ! 1) \<and> List_invariants h' (objs' ! 0))"
proof -
  have a: "DList_invariants DList_example_heap example_container"
    "(1::nat) < length example_objects" "(0::nat) < length example_objects"
    "DList_invariants DList_example_heap (example_objects ! 1)"
    "DList_invariants DList_example_heap (example_objects ! 0)"
    "set (DList_addrs DList_example_heap (example_objects ! 1))
       \<inter> set (DList_addrs DList_example_heap (example_objects ! 0)) = {}"
    "List_invariants List_example_heap example_container"
    "List_invariants List_example_heap (example_objects ! 1)"
    "List_invariants List_example_heap (example_objects ! 0)"
    "set (List_addrs List_example_heap (example_objects ! 1))
       \<inter> set (List_addrs List_example_heap (example_objects ! 0)) = {}"
    by code_simp+
  show ?thesis
    using invariants_preserved [of DList_example_heap List_example_heap example_container
        0 0 1 example_objects 0 example_container 0 1 example_objects 0] a
    by simp
qed

section \<open>Traversal with cursors\<close>

lemma DList_traverse_forward_linked:
  fixes h :: "'a DNode heap"
  assumes L: "\<forall>j<length as. heap_read h (Some (as ! j)) = Inr (DList_link as xs j)"
    and len: "length xs = length as"
  shows "i + k = length as \<Longrightarrow>
         traverse (DList_deref h) (DList_incr Iterator h) \<lparr>node = nth_ptr as i\<rparr> \<lparr>node = None\<rparr> acc
           = Some (Inr (acc @ drop i xs))"
proof (induction k arbitrary: i acc)
  case 0
  then show ?case
    using len by (subst traverse.simps) (simp add: nth_ptr_def)
next
  case (Suc k)
  then have i: "i < length as" by simp
  have r: "heap_read h (Some (as ! i)) = Inr (DList_link as xs i)"
    using L i by simp
  have "traverse (DList_deref h) (DList_incr Iterator h) \<lparr>node = nth_ptr as (Suc i)\<rparr> \<lparr>node = None\<rparr>
          (acc @ [xs ! i]) = Some (Inr ((acc @ [xs ! i]) @ drop (Suc i) xs))"
    using Suc.prems by (intro Suc.IH) simp
  moreover have "xs ! i # drop (Suc i) xs = drop i xs"
    using i len by (simp add: Cons_nth_drop_Suc)
  ultimately show ?case
    using i r
    by (subst traverse.simps) (simp add: nth_ptr_simps DList_deref_def DList_link_def)
qed

lemma DList_traverse_reverse_linked:
  fixes h :: "'a DNode heap"
  assumes L: "\<forall>j<length as. heap_read h (Some (as ! j)) = Inr (DList_link as xs j)"
    and len: "length xs = length as"
  shows "i < length as \<Longrightarrow>
         traverse (DList_deref h) (DList_incr ReverseIterator h) \<lparr>node = Some (as ! i)\<rparr> \<lparr>node = None\<rparr> acc
           = Some (Inr (acc @ rev (take (Suc i) xs)))"
proof (induction i arbitrary: acc)
  case 0
  have r: "heap_read h (Some (as ! 0)) = Inr (DList_link as xs 0)"
    using L 0 by simp
  have "take (Suc 0) xs = [xs ! 0]"
    using 0 len by (cases xs) simp_all
  then show ?case
    using r
    by (subst traverse.simps, simp add: DList_deref_def DList_link_def)
      (subst traverse.simps, simp)
next
  case (Suc i)
  then have i: "i < length as" "Suc i < length xs" using len by simp_all
  have r: "heap_read h (Some (as ! Suc i)) = Inr (DList_link as xs (Suc i))"
    using L Suc.prems by simp
  have "traverse (DList_deref h) (DList_incr ReverseIterator h) \<lparr>node = Some (as ! i)\<rparr> \<lparr>node = None\<rparr>
          (acc @ [xs ! Suc i]) = Some (Inr ((acc @ [xs ! Suc i]) @ rev (take (Suc i) xs)))"
    by (rule Suc.IH [OF i(1)])
  moreover have "take (Suc (Suc i)) xs = take (Suc i) xs @ [xs ! Suc i]"
    by (rule take_Suc_conv_app_nth [OF i(2)])
  ultimately show ?case
    using r
    by (subst traverse.simps) (simp add: DList_deref_def DList_link_def)
qed

lemma List_traverse_forward_linked:
  fixes h :: "'a SNode heap"
  assumes L: "\<forall>j<length as. heap_read h (Some (as ! j)) = Inr (List_link as xs j)"
    and len: "length xs = length as"
  shows "i + k = length as \<Longrightarrow>
         traverse (List_deref h) (List_incr h) \<lparr>node = nth_ptr as i\<rparr> \<lparr>node = None\<rparr> acc
           = Some (Inr (acc @ drop i xs))"
proof (induction k arbitrary: i acc)
  case 0
  then show ?case
    using len by (subst traverse.simps) (simp add: nth_ptr_def)
next
  case (Suc k)
  then have i: "i < length as" by simp
  have r: "heap_read h (Some (as ! i)) = Inr (List_link as xs i)"
    using L i by simp
  have "traverse (List_deref h) (List_incr h) \<lparr>node = nth_ptr as (Suc i)\<rparr> \<lparr>node = None\<rparr>
          (acc @ [xs ! i]) = Some (Inr ((acc @ [xs ! i]) @ drop (Suc i) xs))"
    using Suc.prems by (intro Suc.IH) simp
  moreover have "xs ! i # drop (Suc i) xs = drop i xs"
    using i len by (simp add: Cons_nth_drop_Suc)
  ultimately show ?case
    using i r
    by (subst traverse.simps) (simp add: nth_ptr_simps List_deref_def List_incr_def List_link_def)
qed

text \<open>
  On a non-empty well-formed list, incrementing the cursor of \<open>begin()\<close> until it equals
  \<open>end()\<close> visits the \<open>size()\<close> elements in sequence order, and from \<open>rbegin()\<close> to \<open>rend()\<close>
  it visits them in the reverse order.
\<close>

lemma traversal_of_non_empty_container:
  fixes h :: "'a DNode heap" and hs :: "'b SNode heap"
  shows
  "(DList_inv h l \<and> size_m l \<noteq> 0 \<longrightarrow>
      DList_forward_traversal h l = Some (Inr (DList_values h l)) \<and>
      DList_reverse_traversal h l = Some (Inr (rev (DList_values h l))) \<and>
      length (DList_values h l) = size_m l) \<and>
   (List_inv hs ls \<and> size_m ls \<noteq> 0 \<longrightarrow>
      List_forward_traversal hs ls = Some (Inr (List_values hs ls)) \<and>
      length (List_values hs ls) = size_m ls)"
proof -
  have D: "DList_forward_traversal h l = Some (Inr (DList_values h l)) \<and>
      DList_reverse_traversal h l = Some (Inr (rev (DList_values h l))) \<and>
      length (DList_values h l) = size_m l"
    if i: "DList_inv h l" and n: "size_m l \<noteq> 0"
  proof -
  note r = DList_inv_repr [OF i]
  let ?as = "DList_addrs h l" and ?xs = "DList_values h l"
  note f = DList_repr_fields [OF r]
  have L: "\<forall>j<length ?as. heap_read h (Some (?as ! j)) = Inr (DList_link ?as ?xs j)"
    using DList_reprD(1) [OF r] by simp
  have m: "length ?as - 1 < length ?as" "Suc (length ?as - 1) = length ?xs"
    using n f(1,2) by simp_all
  have e: "DList_end h l = Inr \<lparr>node = None\<rparr>" "DList_rend h l = Inr \<lparr>node = None\<rparr>"
    using DList_tail_node [OF i n] DList_head_node [OF i n]
    by (auto simp: DList_end_def DList_rend_def)
  have "traverse (DList_deref h) (DList_incr Iterator h) \<lparr>node = nth_ptr ?as 0\<rparr> \<lparr>node = None\<rparr> []
          = Some (Inr ([] @ drop 0 ?xs))"
    by (rule DList_traverse_forward_linked [OF L f(2)]) simp
  then have 1: "DList_forward_traversal h l = Some (Inr ?xs)"
    by (simp add: DList_forward_traversal_def e DList_begin_def f(4))
  have "traverse (DList_deref h) (DList_incr ReverseIterator h) \<lparr>node = Some (?as ! (length ?as - 1))\<rparr>
          \<lparr>node = None\<rparr> [] = Some (Inr ([] @ rev (take (Suc (length ?as - 1)) ?xs)))"
    by (rule DList_traverse_reverse_linked [OF L f(2) m(1)])
  then have 2: "DList_reverse_traversal h l = Some (Inr (rev ?xs))"
    using m by (simp add: DList_reverse_traversal_def e DList_rbegin_def f(5) nth_ptr_def)
  show ?thesis
    using 1 2 f(1,2) by simp
  qed
  have S: "List_forward_traversal hs ls = Some (Inr (List_values hs ls)) \<and>
      length (List_values hs ls) = size_m ls"
    if i: "List_inv hs ls" and n: "size_m ls \<noteq> 0"
  proof -
  note r = List_inv_repr [OF i]
  let ?as = "List_addrs hs ls" and ?xs = "List_values hs ls"
  note f = List_repr_fields [OF r]
  have L: "\<forall>j<length ?as. heap_read hs (Some (?as ! j)) = Inr (List_link ?as ?xs j)"
    using List_reprD(1) [OF r] by simp
  have e: "List_end hs ls = Inr \<lparr>node = None\<rparr>"
    using List_tail_node [OF i n] by (auto simp: List_end_def)
  have "traverse (List_deref hs) (List_incr hs) \<lparr>node = nth_ptr ?as 0\<rparr> \<lparr>node = None\<rparr> []
          = Some (Inr ([] @ drop 0 ?xs))"
    by (rule List_traverse_forward_linked [OF L f(2)]) simp
  then have "List_forward_traversal hs ls = Some (Inr ?xs)"
    by (simp add: List_forward_traversal_def e List_begin_def f(4))
  then show ?thesis
    using f(1,2) by simp
  qed
  show ?thesis
    using D S by blast
qed

text \<open>
  Claim C7 at the empty list, where it fails. The loop \<open>for(it = begin(); it != end(); ++it)\<close>
  never starts: \<open>end()\<close> reads \<open>tail_->next\<close> with \<open>tail_\<close> null, and \<open>rend()\<close> reads
  \<open>head_->previous\<close> with \<open>head_\<close> null, where the claim has the traversal visit
  \<open>size() = 0\<close> elements.
\<close>

theorem traversal_of_empty_container:
  fixes h :: "'a DNode heap" and hs :: "'b SNode heap"
  shows
  "DList_size empty_container = 0 \<and>
   DList_forward_traversal h empty_container = Some (Inl NullDeref) \<and>
   DList_reverse_traversal h empty_container = Some (Inl NullDeref) \<and>
   List_size empty_container = 0 \<and>
   List_forward_traversal hs empty_container = Some (Inl NullDeref)"
  by (simp add: DList_forward_traversal_def DList_reverse_traversal_def List_forward_traversal_def
      DList_end_def DList_rend_def List_end_def empty_container_def DList_size_def List_size_def)

section \<open>The example states\<close>

text \<open>
  The example states are the ones three calls of \<open>push_back\<close> build from an empty list.
\<close>

lemma DList_example_built:
  "ebind (DList_push_back [] empty_container 10) (\<lambda>(h1, l1).
   ebind (DList_push_back h1 l1 20) (\<lambda>(h2, l2). DList_push_back h2 l2 30))
     = Inr (DList_example_heap, example_container)"
  by code_simp

lemma List_example_built:
  "ebind (List_push_back [] empty_container 10) (\<lambda>(h1, l1).
   ebind (List_push_back h1 l1 20) (\<lambda>(h2, l2). List_push_back h2 l2 30))
     = Inr (List_example_heap, example_container)"
  by code_simp

end
